theory Spec2Isabelle
  imports Main "HOL-Library.Sublist"
begin

section \<open>Strings\<close>

text \<open>
  A Python \<open>str\<close> is modelled by the list of the bytes of its UTF-8 encoding. The
  delimiters the crawler looks for are ASCII, and an ASCII byte never occurs inside a
  multi-byte sequence, so searching and splitting agree with Python's on code points.
  Lengths and case mapping are those of ASCII text: the model is meant for URL strings
  written in ASCII (what RFC 3986 allows), whose percent-escapes may decode to any bytes.
\<close>

definition ascii_uppercase :: string where
  "ascii_uppercase = ''ABCDEFGHIJKLMNOPQRSTUVWXYZ''"

definition ascii_lowercase :: string where
  "ascii_lowercase = ''abcdefghijklmnopqrstuvwxyz''"

definition digits :: string where
  "digits = ''0123456789''"

definition lower_char :: "char \<Rightarrow> char" where
  "lower_char c = (if c \<in> set ascii_uppercase then char_of (of_char c + (32::nat)) else c)"

definition lower :: "string \<Rightarrow> string" where
  "lower s = map lower_char s"

text \<open>\<open>s.lstrip(chars)\<close>, \<open>s.rstrip(chars)\<close> and \<open>s.strip(chars)\<close>.\<close>

definition lstrip :: "string \<Rightarrow> string \<Rightarrow> string" where
  "lstrip chars s = dropWhile (\<lambda>c. c \<in> set chars) s"

definition rstrip :: "string \<Rightarrow> string \<Rightarrow> string" where
  "rstrip chars s = rev (dropWhile (\<lambda>c. c \<in> set chars) (rev s))"

definition strip :: "string \<Rightarrow> string \<Rightarrow> string" where
  "strip chars s = rstrip chars (lstrip chars s)"

text \<open>\<open>s.split(sep)\<close> for a one-character separator: always at least one field.\<close>

fun split :: "char \<Rightarrow> string \<Rightarrow> string list" where
  "split sep [] = [[]]"
| "split sep (c # cs) =
     (if c = sep then [] # split sep cs
      else (case split sep cs of w # ws \<Rightarrow> (c # w) # ws | [] \<Rightarrow> [[c]]))"

text \<open>
  \<open>s.partition(sep)\<close> as \<open>(head, has_sep, tail)\<close>, which is also \<open>s.split(sep, 1)\<close>
  when the separator occurs.
\<close>

definition partition_at :: "char \<Rightarrow> string \<Rightarrow> string \<times> bool \<times> string" where
  "partition_at sep s =
     (takeWhile (\<lambda>c. c \<noteq> sep) s, sep \<in> set s, drop 1 (dropWhile (\<lambda>c. c \<noteq> sep) s))"

definition endswith :: "string \<Rightarrow> string \<Rightarrow> bool" where
  "endswith s suf = suffix suf s"

text \<open>\<open>sep.join(parts)\<close>.\<close>

fun join :: "string \<Rightarrow> string list \<Rightarrow> string" where
  "join sep [] = []"
| "join sep [p] = p"
| "join sep (p # q # ps) = p @ sep @ join sep (q # ps)"

section \<open>The library: \<open>urllib.parse\<close>\<close>

text \<open>
  The crawler calls \<open>urlparse\<close>, \<open>parse_qs\<close> and \<open>urlencode\<close> of CPython's
  \<open>urllib.parse\<close>. They are modelled here from the library's source (CPython 3.11),
  for \<open>str\<close> arguments and the keyword arguments the crawler passes.
  \<open>urlsplit\<close> raises \<open>ValueError\<close> for an authority whose square brackets do not
  match or do not hold an IP literal; the check of the literal
  (\<open>_check_bracketed_host\<close>, which calls the \<open>ipaddress\<close> module and is absent from
  older releases) is the parameter \<open>chk\<close> of the model. \<open>_checknetloc\<close>, which
  \<open>urlsplit\<close> calls last, returns at once for an authority written in ASCII and is
  left out, the model being one of URLs written in ASCII. The other constructors of
  \<open>error\<close> are the exceptions of the extraction pipeline below.
\<close>

datatype error =
    ValueError
  | TypeError
  | AttributeError
  | OSError
  | JSONDecodeError
  | APIError string

record ParseResult =
  p_scheme :: string
  p_netloc :: string
  p_path :: string
  p_params :: string
  p_query :: string
  p_fragment :: string

definition uses_params :: "string list" where
  "uses_params = ['''', ''ftp'', ''hdl'', ''prospero'', ''http'', ''imap'',
                  ''https'', ''shttp'', ''rtsp'', ''rtsps'', ''rtspu'', ''sip'',
                  ''sips'', ''mms'', ''sftp'', ''tel'']"

definition scheme_chars :: string where
  "scheme_chars = ascii_lowercase @ ascii_uppercase @ digits @ ''+-.''"

text \<open>\<open>_WHATWG_C0_CONTROL_OR_SPACE\<close>: the characters U+0000 to U+0020.\<close>

definition WHATWG_C0_CONTROL_OR_SPACE :: string where
  "WHATWG_C0_CONTROL_OR_SPACE = map char_of [0 ..< (33::nat)]"

definition UNSAFE_URL_BYTES_TO_REMOVE :: string where
  "UNSAFE_URL_BYTES_TO_REMOVE = [CHR 0x09, CHR 0x0D, CHR 0x0A]"

text \<open>
  The scheme test of \<open>urlsplit\<close>: a colon at a position \<open>i > 0\<close>, an ASCII letter
  first, and only scheme characters before the colon.
\<close>

definition split_scheme :: "string \<Rightarrow> string \<times> string" where
  "split_scheme url =
     (let i = length (takeWhile (\<lambda>c. c \<noteq> CHR '':'') url) in
      if CHR '':'' \<in> set url \<and> 0 < i
         \<and> hd url \<in> set (ascii_lowercase @ ascii_uppercase)
         \<and> list_all (\<lambda>c. c \<in> set scheme_chars) (take i url)
      then (lower (take i url), drop (Suc i) url)
      else ([], url))"

text \<open>\<open>_splitnetloc(url, 2)\<close>: the authority runs to the first of \<open>/ ? #\<close>.\<close>

definition splitnetloc :: "string \<Rightarrow> string \<times> string" where
  "splitnetloc url =
     (takeWhile (\<lambda>c. c \<notin> set ''/?#'') (drop 2 url),
      dropWhile (\<lambda>c. c \<notin> set ''/?#'') (drop 2 url))"

definition bracketed_host :: "string \<Rightarrow> string" where
  "bracketed_host netloc =
     (case partition_at (CHR ''['') netloc of
        (_, _, after) \<Rightarrow> (case partition_at (CHR '']'') after of (host, _, _) \<Rightarrow> host))"

definition urlsplit ::
  "(string \<Rightarrow> bool) \<Rightarrow> string \<Rightarrow> error + (string \<times> string \<times> string \<times> string \<times> string)"
where
  "urlsplit chk url0 =
     (let url = filter (\<lambda>c. c \<notin> set UNSAFE_URL_BYTES_TO_REMOVE)
                  (lstrip WHATWG_C0_CONTROL_OR_SPACE url0);
          (scheme, url1) = split_scheme url;
          (netloc, url2) = (if take 2 url1 = ''//'' then splitnetloc url1 else ([], url1))
      in if (CHR ''['' \<in> set netloc \<and> CHR '']'' \<notin> set netloc)
            \<or> (CHR '']'' \<in> set netloc \<and> CHR ''['' \<notin> set netloc)
         then Inl ValueError
         else if CHR ''['' \<in> set netloc \<and> CHR '']'' \<in> set netloc
                 \<and> \<not> chk (bracketed_host netloc)
         then Inl ValueError
         else
           (let (url3, fragment) =
                  (if CHR ''#'' \<in> set url2
                   then (case partition_at (CHR ''#'') url2 of (a, _, b) \<Rightarrow> (a, b))
                   else (url2, []));
                (url4, query) =
                  (if CHR ''?'' \<in> set url3
                   then (case partition_at (CHR ''?'') url3 of (a, _, b) \<Rightarrow> (a, b))
                   else (url3, []))
            in Inr (scheme, netloc, url4, query, fragment)))"

text \<open>
  \<open>_splitparams\<close>: the parameters start at the first \<open>;\<close> of the last path segment.
  \<open>url.find(';', url.rfind('/'))\<close> searches from the last slash on; without a slash
  and without a semicolon \<open>find\<close> returns \<open>-1\<close>, which the slices read as "all but
  the last character" and "from the start" (\<open>urlparse\<close> never calls it so).
\<close>

definition splitparams :: "string \<Rightarrow> string \<times> string" where
  "splitparams url =
     (if CHR ''/'' \<in> set url then
        (let r = length url - 1 - length (takeWhile (\<lambda>c. c \<noteq> CHR ''/'') (rev url));
             after = drop r url
         in if CHR '';'' \<in> set after
            then (let i = r + length (takeWhile (\<lambda>c. c \<noteq> CHR '';'') after)
                  in (take i url, drop (Suc i) url))
            else (url, []))
      else if CHR '';'' \<in> set url
      then (let i = length (takeWhile (\<lambda>c. c \<noteq> CHR '';'') url)
            in (take i url, drop (Suc i) url))
      else (butlast url, url))"

definition urlparse :: "(string \<Rightarrow> bool) \<Rightarrow> string \<Rightarrow> error + ParseResult" where
  "urlparse chk url =
     (case urlsplit chk url of
        Inl e \<Rightarrow> Inl e
      | Inr (scheme, netloc, url', query, fragment) \<Rightarrow>
          (let (path, params) =
                 (if scheme \<in> set uses_params \<and> CHR '';'' \<in> set url'
                  then splitparams url' else (url', []))
           in Inr \<lparr>p_scheme = scheme, p_netloc = netloc, p_path = path,
                    p_params = params, p_query = query, p_fragment = fragment\<rparr>))"

subsection \<open>Percent-decoding\<close>

definition hexdig :: string where
  "hexdig = ''0123456789ABCDEFabcdef''"

definition hex_val :: "char \<Rightarrow> nat" where
  "hex_val c =
     (if c \<in> set digits then of_char c - 48
      else if c \<in> set ''ABCDEF'' then of_char c - 55
      else of_char c - 87)"

text \<open>
  \<open>unquote_to_bytes\<close> splits at every \<open>%\<close> and replaces the two characters after it
  when they are both hexadecimal digits (\<open>_hextobyte\<close> has a key for every such pair,
  in either case); otherwise the \<open>%\<close> stays. Reading left to right gives the same
  bytes: a hexadecimal digit is never a \<open>%\<close>, so an escape cannot overlap the next
  split point.
\<close>

fun unquote_to_bytes :: "string \<Rightarrow> string" where
  "unquote_to_bytes [] = []"
| "unquote_to_bytes (c # h1 # h2 # rest) =
     (if c = CHR ''%'' \<and> h1 \<in> set hexdig \<and> h2 \<in> set hexdig
      then char_of (16 * hex_val h1 + hex_val h2) # unquote_to_bytes rest
      else c # unquote_to_bytes (h1 # h2 # rest))"
| "unquote_to_bytes (c # cs) = c # unquote_to_bytes cs"

text \<open>
  \<open>bytes.decode('utf-8', 'replace')\<close>. Since a \<open>str\<close> is modelled by its UTF-8
  bytes, decoding keeps every well-formed sequence and writes U+FFFD (the bytes
  \<open>EF BF BD\<close>) for every maximal ill-formed part, as CPython's decoder does:
  \<open>utf8_head\<close> gives the number of bytes the decoder consumes at the head of the input
  and whether they are a well-formed sequence.
\<close>

definition cont_byte :: "char \<Rightarrow> bool" where
  "cont_byte c \<longleftrightarrow> (0x80::nat) \<le> of_char c \<and> of_char c < (0xC0::nat)"

definition REPLACEMENT :: string where
  "REPLACEMENT = [CHR 0xEF, CHR 0xBF, CHR 0xBD]"

fun utf8_head :: "string \<Rightarrow> nat \<times> bool" where
  "utf8_head [] = (0, True)"
| "utf8_head (b0 # bs) =
     (let n0 = (of_char b0 :: nat) in
      if n0 < 0x80 then (1, True)
      else if n0 < 0xC2 then (1, False)
      else if n0 < 0xE0 then
        (case bs of
           [] \<Rightarrow> (1, False)
         | b1 # _ \<Rightarrow> if cont_byte b1 then (2, True) else (1, False))
      else if n0 < 0xF0 then
        (case bs of
           [] \<Rightarrow> (1, False)
         | b1 # bs1 \<Rightarrow>
             if \<not> cont_byte b1
                \<or> (if (of_char b1 :: nat) < 0xA0 then n0 = 0xE0 else n0 = 0xED)
             then (1, False)
             else (case bs1 of
                     [] \<Rightarrow> (2, False)
                   | b2 # _ \<Rightarrow> if cont_byte b2 then (3, True) else (2, False)))
      else if n0 < 0xF5 then
        (case bs of
           [] \<Rightarrow> (1, False)
         | b1 # bs1 \<Rightarrow>
             if \<not> cont_byte b1
                \<or> (if (of_char b1 :: nat) < 0x90 then n0 = 0xF0 else n0 = 0xF4)
             then (1, False)
             else (case bs1 of
                     [] \<Rightarrow> (2, False)
                   | b2 # bs2 \<Rightarrow>
                       if \<not> cont_byte b2 then (2, False)
                       else (case bs2 of
                               [] \<Rightarrow> (3, False)
                             | b3 # _ \<Rightarrow> if cont_byte b3 then (4, True) else (3, False))))
      else (1, False))"

lemma utf8_head_pos: "s \<noteq> [] \<Longrightarrow> 0 < fst (utf8_head s)"
  by (cases s) (auto simp: Let_def split: list.splits)

function decode_replace :: "string \<Rightarrow> string" where
  "decode_replace s =
     (if s = [] then []
      else (case utf8_head s of
              (n, ok) \<Rightarrow> (if ok then take n s else REPLACEMENT) @ decode_replace (drop n s)))"
  by pat_completeness auto
termination
proof (relation "measure length", goal_cases)
  case 1
  show ?case by simp
next
  case (2 s n ok)
  then have "0 < n" using utf8_head_pos [of s] by (metis fst_conv)
  with 2 show ?case by simp
qed

declare decode_replace.simps [simp del]

text \<open>
  \<open>unquote\<close> returns a string without \<open>%\<close> as it is; otherwise it decodes each run
  of ASCII characters on its own. A run's decoded bytes end where a character beyond
  ASCII starts, whose first byte is never a continuation byte, so decoding the whole
  byte string gives the same text.
\<close>

definition unquote :: "string \<Rightarrow> string" where
  "unquote s = (if CHR ''%'' \<notin> set s then s else decode_replace (unquote_to_bytes s))"

definition unquote_plus :: "string \<Rightarrow> string" where
  "unquote_plus s = unquote (map (\<lambda>c. if c = CHR ''+'' then CHR '' '' else c) s)"

subsection \<open>Query strings\<close>

text \<open>
  \<open>parse_qsl(qs, keep_blank_values=True)\<close>: the fields between \<open>&\<close>, empty fields
  skipped, each split at its first \<open>=\<close> and unquoted.
\<close>

definition parse_qsl :: "string \<Rightarrow> (string \<times> string) list" where
  "parse_qsl qs =
     (if qs = [] then []
      else map (\<lambda>name_value.
                  case partition_at (CHR ''='') name_value of
                    (name, _, val) \<Rightarrow> (unquote_plus name, unquote_plus val))
             (filter (\<lambda>name_value. name_value \<noteq> []) (split (CHR ''&'') qs)))"

text \<open>
  A Python \<open>dict\<close> keeps its keys in insertion order: it is an association list with
  distinct keys, a new key going to the end.
\<close>

fun dict_append :: "('k \<times> 'v list) list \<Rightarrow> 'k \<Rightarrow> 'v \<Rightarrow> ('k \<times> 'v list) list" where
  "dict_append [] k v = [(k, [v])]"
| "dict_append ((k', vs) # d) k v =
     (if k' = k then (k', vs @ [v]) # d else (k', vs) # dict_append d k v)"

definition parse_qs :: "string \<Rightarrow> (string \<times> string list) list" where
  "parse_qs qs = foldl (\<lambda>parsed_result (name, val). dict_append parsed_result name val)
                   [] (parse_qsl qs)"

definition ALWAYS_SAFE :: string where
  "ALWAYS_SAFE = ascii_uppercase @ ascii_lowercase @ digits @ ''_.-~''"

definition hex_upper :: "nat \<Rightarrow> char" where
  "hex_upper k = ''0123456789ABCDEF'' ! (k mod 16)"

text \<open>\<open>quote(string, safe)\<close>: every byte outside the safe set becomes \<open>%XX\<close>.\<close>

definition quote :: "string \<Rightarrow> string \<Rightarrow> string" where
  "quote s safe =
     concat (map (\<lambda>c. if c \<in> set ALWAYS_SAFE \<or> c \<in> set safe then [c]
                       else [CHR ''%'', hex_upper (of_char c div 16), hex_upper (of_char c)]) s)"

definition quote_plus :: "string \<Rightarrow> string" where
  "quote_plus s =
     (if CHR '' '' \<notin> set s then quote s []
      else map (\<lambda>c. if c = CHR '' '' then CHR ''+'' else c) (quote s '' ''))"

text \<open>\<open>urlencode(query, doseq=True)\<close> for a dictionary of lists of strings.\<close>

definition urlencode :: "(string \<times> string list) list \<Rightarrow> string" where
  "urlencode query_items =
     join ''&'' (concat (map (\<lambda>(k, v). map (\<lambda>elt. quote_plus k @ ''='' @ quote_plus elt) v)
                            query_items))"

section \<open>The crawler: \<open>SmartCrawler\<close>\<close>

text \<open>
  The object's fields. \<open>discovered_urls\<close> and \<open>url_depths\<close> are dictionaries, kept as
  association lists in insertion order; \<open>save_results\<close> sorts the first one stably,
  so its order is part of the output.
\<close>

record SmartCrawler =
  base_url :: string
  domain :: string
  discovered_urls :: "(string \<times> int) list"
  output_file :: string
  max_urls :: int
  tracking_params :: "string list"
  skip_patterns :: "string list"
  url_depths :: "(string \<times> int) list"
  max_depth :: int

definition init :: "(string \<Rightarrow> bool) \<Rightarrow> string \<Rightarrow> string \<Rightarrow> int \<Rightarrow> error + SmartCrawler" where
  "init chk base_url' output_file' max_urls' =
     (case urlparse chk base_url' of
        Inl e \<Rightarrow> Inl e
      | Inr parsed \<Rightarrow>
          Inr \<lparr>base_url = base_url',
               domain = p_netloc parsed,
               discovered_urls = [],
               output_file = output_file',
               max_urls = max_urls',
               tracking_params =
                 [''utm_source'', ''utm_medium'', ''utm_campaign'', ''utm_term'', ''utm_content'',
                  ''fbclid'', ''gclid'', ''msclkid'', ''mc_cid'', ''mc_eid'',
                  ''ref'', ''source'', ''promo'', ''_ga'', ''_gl'', ''referrer''],
               skip_patterns =
                 [''.pdf'', ''.doc'', ''.docx'', ''.xls'', ''.xlsx'', ''.ppt'', ''.pptx'',
                  ''.zip'', ''.rar'', ''.tar'', ''.gz'',
                  ''.jpg'', ''.jpeg'', ''.png'', ''.gif'', ''.svg'', ''.ico'', ''.webp'',
                  ''.mp3'', ''.mp4'', ''.avi'', ''.mov'', ''.wmv'',
                  ''.css'', ''.js'', ''.json'', ''.xml'',
                  ''/wp-json/'', ''/wp-content/uploads/'', ''/wp-admin/'',
                  ''/api/'', ''/feed/'', ''/rss/'',
                  ''?replytocom='', ''?attachment_id='', ''/trackback/''],
               url_depths = [],
               max_depth = 3\<rparr>)"

definition clean_url ::
  "(string \<Rightarrow> bool) \<Rightarrow> 'a SmartCrawler_scheme \<Rightarrow> string \<Rightarrow> error + string"
where
  "clean_url chk self url =
     (case urlparse chk url of
        Inl e \<Rightarrow> Inl e
      | Inr parsed \<Rightarrow>
          (let clean_url' =
                 (if p_query parsed \<noteq> [] then
                    (let params = parse_qs (p_query parsed);
                         cleaned_params =
                           filter (\<lambda>(k, v). k \<notin> set (tracking_params self)) params
                     in if cleaned_params \<noteq> []
                        then p_scheme parsed @ ''://'' @ p_netloc parsed @ p_path parsed
                               @ ''?'' @ urlencode cleaned_params
                        else p_scheme parsed @ ''://'' @ p_netloc parsed @ p_path parsed)
                  else p_scheme parsed @ ''://'' @ p_netloc parsed @ p_path parsed)
           in Inr (if endswith clean_url' ''/'' \<and> 1 < length (p_path parsed)
                   then rstrip ''/'' clean_url' else clean_url')))"

definition should_skip_url :: "'a SmartCrawler_scheme \<Rightarrow> string \<Rightarrow> bool" where
  "should_skip_url self url =
     list_ex (\<lambda>pattern. sublist pattern (lower url)) (skip_patterns self)"

definition calculate_priority ::
  "(string \<Rightarrow> bool) \<Rightarrow> string \<Rightarrow> string \<Rightarrow> int \<Rightarrow> error + int"
where
  "calculate_priority chk url context depth =
     (case urlparse chk url of
        Inl e \<Rightarrow> Inl e
      | Inr parsed \<Rightarrow>
          (let path = p_path parsed;
               path_parts = filter (\<lambda>p. p \<noteq> []) (split (CHR ''/'') (strip ''/'' path))
           in if path \<in> set [''/'', ''''] then Inr 100
              else
                (let score = 50;
                     score = (if context = ''nav'' then score + 30
                              else if context = ''footer'' then score + 20
                              else if context = ''homepage'' then score + 25
                              else score + 0);
                     url_depth = length path_parts;
                     score = (if url_depth = 1 then score + 20
                              else if url_depth = 2 then score + 10
                              else if url_depth = 3 then score + 0
                              else if url_depth = 4 then score - 10
                              else score - 20);
                     score = score - depth * 5;
                     score = (if CHR ''?'' \<in> set url then score - 5 else score)
                 in Inr (max 0 (min 100 score)))))"

subsection \<open>The sitemap\<close>

text \<open>
  What the network answers is the environment of the model. A request for a sitemap
  raises (no connection, or a body that is not XML), or answers with a status other than
  200, or with a document: the \<open>sitemap/loc\<close> entries of an index, each with what
  fetching and parsing that sitemap gives, and the \<open>url/loc\<close> entries. An entry is
  the \<open>text\<close> of its element, which is \<open>None\<close> for an element without content
  (\<open><loc/>\<close>).
\<close>

datatype sub_response = Sub_raises | Sub_urls "string option list"

datatype sitemap_response =
    Request_raises
  | Status_not_200
  | Document "sub_response list" "string option list"

text \<open>
  \<open>self.clean_url(elem.text)\<close>. For \<open>None\<close>, \<open>urlparse\<close> decodes its argument to the
  empty string and returns a result of empty \<open>bytes\<close>; the query is empty, so the
  f-string writes scheme, authority and path, each as \<open>b''\<close>, and the result
  \<open>none_url\<close>, the twelve characters \<open>b''://b''b''\<close>, does not end with a slash.
\<close>

definition none_url :: string where
  "none_url = [CHR ''b'', CHR 0x27, CHR 0x27, CHR '':'', CHR ''/'', CHR ''/'',
               CHR ''b'', CHR 0x27, CHR 0x27, CHR ''b'', CHR 0x27, CHR 0x27]"

definition clean_url_text ::
  "(string \<Rightarrow> bool) \<Rightarrow> 'a SmartCrawler_scheme \<Rightarrow> string option \<Rightarrow> error + string"
where
  "clean_url_text chk self loc =
     (case loc of
        None \<Rightarrow> Inr none_url
      | Some url \<Rightarrow> clean_url chk self url)"

text \<open>
  The loop over the locations of one sitemap: each is cleaned and kept unless a skip
  pattern matches. A \<open>ValueError\<close> of \<open>clean_url\<close> leaves the loop by the enclosing
  \<open>except\<close>, with the URLs found so far.
\<close>

fun add_locs ::
  "(string \<Rightarrow> bool) \<Rightarrow> 'a SmartCrawler_scheme \<Rightarrow> string list \<Rightarrow> string option list
     \<Rightarrow> string list \<times> error option"
where
  "add_locs chk self found_urls [] = (found_urls, None)"
| "add_locs chk self found_urls (url # urls) =
     (case clean_url_text chk self url of
        Inl e \<Rightarrow> (found_urls, Some e)
      | Inr clean_url' \<Rightarrow>
          add_locs chk self
            (if \<not> should_skip_url self clean_url' then found_urls @ [clean_url']
             else found_urls) urls)"

text \<open>The loop over the first five sitemaps of an index; each has its own \<open>try\<close>.\<close>

fun add_subs ::
  "(string \<Rightarrow> bool) \<Rightarrow> 'a SmartCrawler_scheme \<Rightarrow> string list \<Rightarrow> sub_response list
     \<Rightarrow> string list"
where
  "add_subs chk self found_urls [] = found_urls"
| "add_subs chk self found_urls (Sub_raises # subs) = add_subs chk self found_urls subs"
| "add_subs chk self found_urls (Sub_urls urls # subs) =
     add_subs chk self (fst (add_locs chk self found_urls urls)) subs"

text \<open>The loop over the candidate sitemap addresses, left at the first one that parses.\<close>

fun try_sitemaps ::
  "(string \<Rightarrow> bool) \<Rightarrow> (string \<Rightarrow> sitemap_response) \<Rightarrow> 'a SmartCrawler_scheme
     \<Rightarrow> string list \<Rightarrow> string list \<Rightarrow> string list"
where
  "try_sitemaps chk get self found_urls [] = found_urls"
| "try_sitemaps chk get self found_urls (sitemap_url # sitemap_urls) =
     (case get sitemap_url of
        Request_raises \<Rightarrow> try_sitemaps chk get self found_urls sitemap_urls
      | Status_not_200 \<Rightarrow> try_sitemaps chk get self found_urls sitemap_urls
      | Document sitemaps urls \<Rightarrow>
          if sitemaps \<noteq> [] then add_subs chk self found_urls (take 5 sitemaps)
          else (case add_locs chk self found_urls urls of
                  (found_urls', None) \<Rightarrow> found_urls'
                | (found_urls', Some e) \<Rightarrow> try_sitemaps chk get self found_urls' sitemap_urls))"

definition parse_sitemap ::
  "(string \<Rightarrow> bool) \<Rightarrow> (string \<Rightarrow> sitemap_response) \<Rightarrow> 'a SmartCrawler_scheme \<Rightarrow> string list"
where
  "parse_sitemap chk get self =
     try_sitemaps chk get self []
       [base_url self @ ''/sitemap.xml'',
        base_url self @ ''/sitemap_index.xml'',
        ''https://'' @ domain self @ ''/sitemap.xml'',
        ''https://'' @ domain self @ ''/sitemap_index.xml'']"

subsection \<open>Discovery\<close>

text \<open>\<open>d[k] = v\<close> on a dictionary: an old key keeps its place, a new key goes last.\<close>

fun dict_set :: "('k \<times> 'v) list \<Rightarrow> 'k \<Rightarrow> 'v \<Rightarrow> ('k \<times> 'v) list" where
  "dict_set [] k v = [(k, v)]"
| "dict_set ((k', v') # d) k v = (if k' = k then (k, v) # d else (k', v') # dict_set d k v)"

definition keys :: "('k \<times> 'v) list \<Rightarrow> 'k list" where
  "keys d = map fst d"

text \<open>
  The state of \<open>discover_important_pages\<close>: the object, the queue \<open>to_crawl\<close>, the
  set \<open>crawled\<close>, and the list of the pages \<open>extract_all_links\<close> was called on, in
  the order of the calls (the requests the walk makes).
\<close>

record walk =
  crawler :: SmartCrawler
  to_crawl :: "(string \<times> int) list"
  crawled :: "string set"
  fetched :: "string list"

text \<open>
  The loop over the sitemap's URLs. The unused \<open>depth\<close> of the source is computed from
  \<open>urlparse(url)\<close>, which can raise.
\<close>

fun seed_sitemap :: "(string \<Rightarrow> bool) \<Rightarrow> string list \<Rightarrow> SmartCrawler \<Rightarrow> error + SmartCrawler" where
  "seed_sitemap chk [] self = Inr self"
| "seed_sitemap chk (url # sitemap_urls) self =
     (if url \<notin> set (keys (discovered_urls self)) then
        (case urlparse chk url of
           Inl e \<Rightarrow> Inl e
         | Inr _ \<Rightarrow>
             (case calculate_priority chk url ''sitemap'' 1 of
                Inl e \<Rightarrow> Inl e
              | Inr priority \<Rightarrow>
                  seed_sitemap chk sitemap_urls
                    (self\<lparr>discovered_urls := dict_set (discovered_urls self) url priority,
                          url_depths := dict_set (url_depths self) url 1\<rparr>)))
      else seed_sitemap chk sitemap_urls self)"

text \<open>The statements before the \<open>while\<close> loop.\<close>

definition discover_start ::
  "(string \<Rightarrow> bool) \<Rightarrow> (string \<Rightarrow> sitemap_response) \<Rightarrow> SmartCrawler \<Rightarrow> error + walk"
where
  "discover_start chk get self =
     (let self1 = self\<lparr>discovered_urls := dict_set (discovered_urls self) (base_url self) 100\<rparr>;
          self2 = self1\<lparr>url_depths := dict_set (url_depths self1) (base_url self1) 0\<rparr>;
          sitemap_urls = parse_sitemap chk get self2
      in case seed_sitemap chk sitemap_urls self2 of
           Inl e \<Rightarrow> Inl e
         | Inr self3 \<Rightarrow>
             Inr \<lparr>crawler = self3, to_crawl = [(base_url self, 0)], crawled = {}, fetched = []\<rparr>)"

text \<open>
  The \<open>for\<close> loop over the links of the current page, \<open>page_links.items()\<close>, with its
  \<open>break\<close> at the budget.
\<close>

fun add_links ::
  "(string \<Rightarrow> bool) \<Rightarrow> int \<Rightarrow> (string \<times> string) list \<Rightarrow> walk \<Rightarrow> error + walk"
where
  "add_links chk current_depth [] w = Inr w"
| "add_links chk current_depth ((url, context) # page_links) w =
     (let self = crawler w in
      if max_urls self \<le> int (length (discovered_urls self)) then Inr w
      else
        (case calculate_priority chk url context (current_depth + 1) of
           Inl e \<Rightarrow> Inl e
         | Inr priority \<Rightarrow>
             if url \<notin> set (keys (discovered_urls self)) then
               add_links chk current_depth page_links
                 (w\<lparr>crawler :=
                      self\<lparr>discovered_urls := dict_set (discovered_urls self) url priority,
                            url_depths := dict_set (url_depths self) url (current_depth + 1)\<rparr>,
                    to_crawl :=
                      (if current_depth + 1 \<le> max_depth self
                       then to_crawl w @ [(url, current_depth + 1)] else to_crawl w)\<rparr>)
             else add_links chk current_depth page_links w))"

text \<open>The condition of the \<open>while\<close> loop and one pass through its body.\<close>

definition walk_cond :: "walk \<Rightarrow> bool" where
  "walk_cond w \<longleftrightarrow>
     to_crawl w \<noteq> [] \<and> int (length (discovered_urls (crawler w))) < max_urls (crawler w)"

definition walk_step ::
  "(string \<Rightarrow> bool) \<Rightarrow> (string \<Rightarrow> (string \<times> string) list) \<Rightarrow> walk \<Rightarrow> error + walk"
where
  "walk_step chk extract_all_links w =
     (case to_crawl w of
        [] \<Rightarrow> Inr w
      | (current_url, current_depth) # rest \<Rightarrow>
          if current_url \<in> crawled w \<or> max_depth (crawler w) < current_depth
          then Inr (w\<lparr>to_crawl := rest\<rparr>)
          else add_links chk current_depth (extract_all_links current_url)
                 (w\<lparr>to_crawl := rest,
                    crawled := insert current_url (crawled w),
                    fetched := fetched w @ [current_url]\<rparr>))"

text \<open>
  The state after at most \<open>n\<close> passes of the loop: the states the walk goes through are
  \<open>walk_iterate n\<close> of the start state, for every \<open>n\<close>.
\<close>

fun walk_iterate ::
  "(string \<Rightarrow> bool) \<Rightarrow> (string \<Rightarrow> (string \<times> string) list) \<Rightarrow> nat \<Rightarrow> walk \<Rightarrow> error + walk"
where
  "walk_iterate chk extract_all_links 0 w = Inr w"
| "walk_iterate chk extract_all_links (Suc n) w =
     (if walk_cond w then
        (case walk_step chk extract_all_links w of
           Inl e \<Rightarrow> Inl e
         | Inr w' \<Rightarrow> walk_iterate chk extract_all_links n w')
      else Inr w)"

section \<open>The content fetcher: \<open>ContentExtractor\<close>\<close>

text \<open>\<open>str(n)\<close> for an integer.\<close>

fun str_nat :: "nat \<Rightarrow> string" where
  "str_nat n =
     (if n < 10 then [char_of (48 + n)] else str_nat (n div 10) @ [char_of (48 + n mod 10)])"

declare str_nat.simps [simp del]

definition str_int :: "int \<Rightarrow> string" where
  "str_int i = (if i < 0 then CHR ''-'' # str_nat (nat (- i)) else str_nat (nat i))"

text \<open>
  What one pass through the \<open>try\<close> block of \<open>extract_clean_content\<close> does is the
  environment of the model: the request and the parsing give the extracted page, or
  raise \<open>requests.exceptions.Timeout\<close>, another \<open>RequestException\<close>, or any other
  exception; each carries its message \<open>str(e)\<close>.
\<close>

datatype 'p attempt_outcome =
    Page 'p
  | Timeout string
  | RequestException string
  | Other_exception string

text \<open>
  The returned dictionary: the URL of its \<open>metadata\<close>, what was extracted from the
  page (title, content, headings, links, contact data and word count; absent in a
  failure result, whose \<open>content\<close> is empty), the \<open>error\<close> entry of a failure result,
  and the two entries the pipeline reads.
\<close>

record 'p extraction =
  metadata_url :: string
  page :: "'p option"
  error_message :: "string option"
  extraction_successful :: bool
  attempts :: int

text \<open>What the method does besides returning: requests and sleeps, in order.\<close>

datatype event = Request nat | Sleep nat

text \<open>
  The \<open>for attempt in range(self.max_retries)\<close> loop, from \<open>attempt\<close> on. When the
  range is exhausted without a \<open>return\<close> the method returns \<open>None\<close>.
\<close>

function attempt_loop ::
  "int \<Rightarrow> string \<Rightarrow> (nat \<Rightarrow> 'p attempt_outcome) \<Rightarrow> nat \<Rightarrow> event list
     \<Rightarrow> 'p extraction option \<times> event list"
where
  "attempt_loop max_retries url fetch attempt events =
     (if int attempt < max_retries then
        (case fetch attempt of
           Page p \<Rightarrow>
             (Some \<lparr>metadata_url = url, page = Some p, error_message = None,
                     extraction_successful = True, attempts = int attempt + 1\<rparr>,
              events @ [Request attempt])
         | Timeout e \<Rightarrow>
             if int attempt < max_retries - 1
             then attempt_loop max_retries url fetch (Suc attempt)
                    (events @ [Request attempt, Sleep (2 ^ (attempt + 1))])
             else (Some \<lparr>metadata_url = url, page = None,
                          error_message =
                            Some (''Timeout after '' @ str_int max_retries @ '' attempts: '' @ e),
                          extraction_successful = False, attempts = max_retries\<rparr>,
                   events @ [Request attempt])
         | RequestException e \<Rightarrow>
             if int attempt < max_retries - 1
             then attempt_loop max_retries url fetch (Suc attempt)
                    (events @ [Request attempt, Sleep (2 ^ (attempt + 1))])
             else (Some \<lparr>metadata_url = url, page = None,
                          error_message =
                            Some (''Request failed after '' @ str_int max_retries
                                    @ '' attempts: '' @ e),
                          extraction_successful = False, attempts = max_retries\<rparr>,
                   events @ [Request attempt])
         | Other_exception e \<Rightarrow>
             (Some \<lparr>metadata_url = url, page = None, error_message = Some e,
                     extraction_successful = False, attempts = int attempt + 1\<rparr>,
              events @ [Request attempt]))
      else (None, events))"
  by pat_completeness auto
termination
  by (relation "measure (\<lambda>(max_retries, url, fetch, attempt, events).
                           nat (max_retries - int attempt))")
     auto

declare attempt_loop.simps [simp del]

definition extract_clean_content ::
  "int \<Rightarrow> string \<Rightarrow> (nat \<Rightarrow> 'p attempt_outcome) \<Rightarrow> 'p extraction option \<times> event list"
where
  "extract_clean_content max_retries url fetch = attempt_loop max_retries url fetch 0 []"

text \<open>
  For the statement of the retry claim: an outcome that is retried, the message an
  outcome raised, the requests and the sleeps of a trace, and the trace of \<open>n\<close>
  failed attempts from attempt \<open>k\<close> on, with a sleep of \<open>2 ^ (k + 1)\<close> seconds after
  attempt \<open>k\<close> unless it is the last. Attempts are counted from 0 as the loop variable
  does; the messages and the \<open>attempts\<close> entry count from 1, so the sleep after the
  attempt numbered \<open>a\<close> there is \<open>2 ^ a\<close> seconds.
\<close>

definition transient :: "'p attempt_outcome \<Rightarrow> bool" where
  "transient outcome \<longleftrightarrow>
     (case outcome of Timeout e \<Rightarrow> True | RequestException e \<Rightarrow> True | _ \<Rightarrow> False)"

definition raised :: "'p attempt_outcome \<Rightarrow> string" where
  "raised outcome =
     (case outcome of
        Timeout e \<Rightarrow> e | RequestException e \<Rightarrow> e | Other_exception e \<Rightarrow> e | Page p \<Rightarrow> [])"

fun requests :: "event list \<Rightarrow> nat list" where
  "requests [] = []"
| "requests (Request k # es) = k # requests es"
| "requests (Sleep t # es) = requests es"

fun sleeps :: "event list \<Rightarrow> nat list" where
  "sleeps [] = []"
| "sleeps (Request k # es) = sleeps es"
| "sleeps (Sleep t # es) = t # sleeps es"

fun backoff_trace :: "nat \<Rightarrow> nat \<Rightarrow> event list" where
  "backoff_trace k 0 = []"
| "backoff_trace k (Suc 0) = [Request k]"
| "backoff_trace k (Suc (Suc m)) =
     Request k # Sleep (2 ^ (k + 1)) # backoff_trace (Suc k) (Suc m)"

definition demo_fetch :: "nat \<Rightarrow> unit attempt_outcome" where
  "demo_fetch k =
     (if k = 1 then RequestException ''connection reset'' else Timeout ''read timed out'')"


section \<open>The extraction pipeline\<close>

subsection \<open>Snapshots\<close>

text \<open>
  The accumulated record is what \<open>json.loads\<close> returns: a JSON value (numbers are
  kept as integers; the schema of the record has none). A dictionary is the list of its
  items.
\<close>

datatype json =
    JNull
  | JBool bool
  | JNum int
  | JStr string
  | JArr "json list"
  | JObj "(string \<times> json) list"

definition get_empty_structure :: json where
  "get_empty_structure =
     JObj [(''company_name'', JStr ''''),
           (''company_email'', JStr ''''),
           (''company_location'', JStr ''''),
           (''company_phone'', JStr ''''),
           (''company_industry_type'', JStr ''''),
           (''company_social_links'',
              JObj [(''linkedin'', JStr ''''), (''twitter'', JStr ''''),
                    (''facebook'', JStr ''''), (''instagram'', JStr ''''),
                    (''youtube'', JStr ''''), (''other'', JArr [])]),
           (''description'', JStr ''''),
           (''company_persons'', JArr [])]"

text \<open>Truth value, \<open>x.get(key, default)\<close> and \<open>len(x)\<close> of a JSON value in Python.\<close>

fun truthy :: "json \<Rightarrow> bool" where
  "truthy JNull = False"
| "truthy (JBool b) = b"
| "truthy (JNum n) = (n \<noteq> 0)"
| "truthy (JStr s) = (s \<noteq> [])"
| "truthy (JArr xs) = (xs \<noteq> [])"
| "truthy (JObj kvs) = (kvs \<noteq> [])"

fun py_get :: "json \<Rightarrow> string \<Rightarrow> json \<Rightarrow> error + json" where
  "py_get (JObj kvs) k dflt = (case map_of kvs k of None \<Rightarrow> Inr dflt | Some v \<Rightarrow> Inr v)"
| "py_get _ k dflt = Inl AttributeError"

fun py_len :: "json \<Rightarrow> error + nat" where
  "py_len (JStr s) = Inr (length s)"
| "py_len (JArr xs) = Inr (length xs)"
| "py_len (JObj kvs) = Inr (length kvs)"
| "py_len _ = Inl TypeError"

subsection \<open>\<open>extract_value_from_file\<close>\<close>

text \<open>
  The environment: the content of a file (\<open>None\<close> when \<open>open\<close> raises), the answer of
  the chat completion for the current snapshot and the file's content (it raises, or
  gives the response text and the token counts), and \<open>json.loads\<close> (\<open>None\<close> when it
  raises). The log file is the list of its entries, and writing it is taken to succeed.
\<close>

datatype chat_outcome = Chat_raises string | Chat_response string "nat \<times> nat \<times> nat"

record world =
  read_file_content :: "string \<Rightarrow> string option"
  chat_completion :: "json \<Rightarrow> string \<Rightarrow> chat_outcome"
  json_loads :: "string \<Rightarrow> json option"

record log_entry =
  file_processed :: string
  response :: "error + string"
  tokens_used :: "(nat \<times> nat \<times> nat) option"

text \<open>\<open>os.path.basename\<close>: what follows the last slash.\<close>

definition basename :: "string \<Rightarrow> string" where
  "basename p = rev (takeWhile (\<lambda>c. c \<noteq> CHR ''/'') (rev p))"

text \<open>
  The statements between the logging of the response and the \<open>return\<close> print what was
  found; they raise when the response is not a dictionary or \<open>company_persons\<close> has no
  length. \<open>report\<close> gives the exception, if any.
\<close>

definition report :: "json \<Rightarrow> json \<Rightarrow> error option" where
  "report extracted_data current_data =
     (case py_get extracted_data ''company_name'' JNull of
        Inl e \<Rightarrow> Some e
      | Inr _ \<Rightarrow>
          (case py_get extracted_data ''company_persons'' JNull of
             Inl e \<Rightarrow> Some e
           | Inr persons \<Rightarrow>
               if truthy persons then
                 (case py_len persons of
                    Inl e \<Rightarrow> Some e
                  | Inr _ \<Rightarrow>
                      (case py_get current_data ''company_persons'' (JArr []) of
                         Inl e \<Rightarrow> Some e
                       | Inr current_persons \<Rightarrow>
                           (case py_len current_persons of
                              Inl e \<Rightarrow> Some e
                            | Inr _ \<Rightarrow> None)))
               else None))"

text \<open>
  The function returns the new snapshot and the log, or raises: reading the file is
  outside the \<open>try\<close> block. The \<open>except\<close> branch logs the error and returns
  \<open>current_data\<close>.
\<close>

definition extract_value_from_file ::
  "world \<Rightarrow> string \<Rightarrow> json \<Rightarrow> log_entry list \<Rightarrow> error + json \<times> log_entry list"
where
  "extract_value_from_file client filepath current_data log_file =
     (let filename = basename filepath in
      case read_file_content client filepath of
        None \<Rightarrow> Inl OSError
      | Some file_content \<Rightarrow>
          (let on_exception = (\<lambda>e log.
                 Inr (current_data,
                      log @ [\<lparr>file_processed = filename, response = Inl e,
                               tokens_used = None\<rparr>]))
           in case chat_completion client current_data file_content of
                Chat_raises msg \<Rightarrow> on_exception (APIError msg) log_file
              | Chat_response response_content tokens \<Rightarrow>
                  (case json_loads client response_content of
                     None \<Rightarrow> on_exception JSONDecodeError log_file
                   | Some extracted_data \<Rightarrow>
                       (let log1 = log_file @ [\<lparr>file_processed = filename,
                                                  response = Inr response_content,
                                                  tokens_used = Some tokens\<rparr>]
                        in case report extracted_data current_data of
                             Some e \<Rightarrow> on_exception e log1
                           | None \<Rightarrow> Inr (extracted_data, log1)))))"

subsection \<open>Producer and consumer\<close>

text \<open>
  The two loops run in two threads and share the queue and the dictionary
  \<open>job_cancellation\<close>. The state holds what is shared, the local variables of each
  loop with the point it has reached, the files the consumer writes, and two records
  of what happened: every item put on the queue and every path handed to
  \<open>extract_value_from_file\<close>, in order.
\<close>

datatype producer_phase = P_start | P_loop | P_returned | P_raised error

datatype consumer_phase =
  C_check | C_get | C_drain | C_cancelled | C_finished | C_raised error

record pipeline =
  file_queue :: "string option list"
  job_cancellation :: "(string \<times> bool) list"
  p_phase :: producer_phase
  todo :: "(nat \<times> string) list"
  successful :: nat
  failed_urls :: "(string \<times> string) list"
  c_phase :: consumer_phase
  accumulated_data :: json
  file_count :: nat
  progress_file :: "(string \<times> json) option"
  output_json :: "json option"
  openai_log :: "log_entry list"
  put_items :: "string option list"
  processed :: "string list"

text \<open>
  The arguments of a job: the useful URLs read from the CSV file, the content
  directory, the retry budget, what fetching each URL gives on each attempt, the path
  \<open>save_as_markdown\<close> returns for a file name, and for each loop the \<open>job_id\<close> it was
  given (\<open>None\<close> when \<open>job_id\<close> or \<open>job_cancellation\<close> was left at its default).
\<close>

record 'p job =
  useful_urls :: "string list"
  retries :: int
  fetch_of :: "string \<Rightarrow> nat \<Rightarrow> 'p attempt_outcome"
  save_as_markdown :: "'p extraction \<Rightarrow> string \<Rightarrow> string"
  producer_job_id :: "string option"
  consumer_job_id :: "string option"

text \<open>\<open>job_id and job_cancellation and job_cancellation.get(job_id)\<close>.\<close>

definition cancelled :: "string option \<Rightarrow> (string \<times> bool) list \<Rightarrow> bool" where
  "cancelled job_id cancellation =
     (case job_id of
        None \<Rightarrow> False
      | Some j \<Rightarrow> j \<noteq> [] \<and> cancellation \<noteq> []
                  \<and> (case map_of cancellation j of None \<Rightarrow> False | Some b \<Rightarrow> b))"

text \<open>
  \<open>sanitize_filename\<close>; \<open>\w\<close> is read as the ASCII letters, the digits and the
  underscore.
\<close>

definition sanitize_filename :: "(string \<Rightarrow> bool) \<Rightarrow> string \<Rightarrow> error + string" where
  "sanitize_filename chk url =
     (case urlparse chk url of
        Inl e \<Rightarrow> Inl e
      | Inr parsed \<Rightarrow>
          (let path = p_path parsed;
               name = map (\<lambda>c. if c = CHR ''/'' then CHR ''_'' else c) (strip ''/'' path);
               name = (if name = [] then ''homepage'' else name)
           in Inr (take 100
                    (map (\<lambda>c. if c \<in> set (ascii_lowercase @ ascii_uppercase @ digits @ ''_-'')
                               then c else CHR ''_'') name))))"

text \<open>
  One step of the producer \<open>extract_content\<close>: the test for an empty list, one pass
  of the \<open>for\<close> loop, or the statements after the loop. \<open>None\<close> when it has returned.
\<close>

definition put :: "string option \<Rightarrow> pipeline \<Rightarrow> pipeline" where
  "put item s = s\<lparr>file_queue := file_queue s @ [item], put_items := put_items s @ [item]\<rparr>"

definition producer_step ::
  "(string \<Rightarrow> bool) \<Rightarrow> 'p job \<Rightarrow> pipeline \<Rightarrow> pipeline option"
where
  "producer_step chk job s =
     (case p_phase s of
        P_start \<Rightarrow>
          if useful_urls job = [] then Some ((put None s)\<lparr>p_phase := P_returned\<rparr>)
          else Some (s\<lparr>p_phase := P_loop,
                       todo := zip [1 ..< Suc (length (useful_urls job))] (useful_urls job)\<rparr>)
      | P_loop \<Rightarrow>
          (case todo s of
             [] \<Rightarrow> Some ((put None s)\<lparr>p_phase := P_returned\<rparr>)
           | (idx, url) # rest \<Rightarrow>
               if cancelled (producer_job_id job) (job_cancellation s)
               then Some ((put None s)\<lparr>p_phase := P_returned\<rparr>)
               else
                 (case fst (extract_clean_content (retries job) url (fetch_of job url)) of
                    None \<Rightarrow> Some (s\<lparr>p_phase := P_raised TypeError\<rparr>)
                  | Some data \<Rightarrow>
                      if extraction_successful data then
                        (case sanitize_filename chk url of
                           Inl e \<Rightarrow> Some (s\<lparr>p_phase := P_raised e, successful := successful s + 1\<rparr>)
                         | Inr name \<Rightarrow>
                             (let filename = str_nat idx @ ''_'' @ name @ ''.md'';
                                  filepath = save_as_markdown job data filename
                              in Some ((put (Some filepath) s)
                                         \<lparr>successful := successful s + 1, todo := rest\<rparr>)))
                      else Some (s\<lparr>failed_urls := failed_urls s
                                     @ [(url, case error_message data of
                                                None \<Rightarrow> ''Unknown'' | Some e \<Rightarrow> e)],
                                   todo := rest\<rparr>)))
      | P_returned \<Rightarrow> None
      | P_raised e \<Rightarrow> None)"

text \<open>
  One step of the consumer \<open>extract_values_from_queue\<close>: the cancellation test at the
  top of the loop, one pass of the drain loop, or \<open>file_queue.get()\<close> with what follows
  it. The consumer ends in \<open>C_cancelled\<close> (the \<open>return\<close> after the drain loop), in
  \<open>C_finished\<close> (the end of the function, after the sentinel) or in \<open>C_raised\<close>.
  \<open>None\<close> when it waits for an item or has ended.
\<close>

definition consumer_step :: "world \<Rightarrow> 'p job \<Rightarrow> pipeline \<Rightarrow> pipeline option" where
  "consumer_step client job s =
     (case c_phase s of
        C_check \<Rightarrow>
          if cancelled (consumer_job_id job) (job_cancellation s)
          then Some (s\<lparr>c_phase := C_drain\<rparr>)
          else Some (s\<lparr>c_phase := C_get\<rparr>)
      | C_drain \<Rightarrow>
          (case file_queue s of
             item # rest \<Rightarrow> Some (s\<lparr>file_queue := rest\<rparr>)
           | [] \<Rightarrow>
               Some (s\<lparr>c_phase := C_cancelled,
                       output_json := (if 0 < file_count s then Some (accumulated_data s)
                                       else output_json s)\<rparr>))
      | C_get \<Rightarrow>
          (case file_queue s of
             [] \<Rightarrow> None
           | None # rest \<Rightarrow>
               Some (s\<lparr>file_queue := rest, c_phase := C_finished,
                       output_json := Some (accumulated_data s)\<rparr>)
           | Some filepath # rest \<Rightarrow>
               (case extract_value_from_file client filepath (accumulated_data s)
                       (openai_log s) of
                  Inl e \<Rightarrow>
                    Some (s\<lparr>file_queue := rest, file_count := file_count s + 1,
                            processed := processed s @ [filepath], c_phase := C_raised e\<rparr>)
                | Inr (data, log) \<Rightarrow>
                    Some (s\<lparr>file_queue := rest, file_count := file_count s + 1,
                            processed := processed s @ [filepath],
                            accumulated_data := data, openai_log := log,
                            progress_file := Some (basename filepath, data),
                            c_phase := C_check\<rparr>)))
      | C_cancelled \<Rightarrow> None
      | C_finished \<Rightarrow> None
      | C_raised e \<Rightarrow> None)"

text \<open>
  The cancel request of the dashboard sets the flag of a job that is registered. A
  schedule names who moves next; a thread that cannot move leaves the state as it is.
\<close>

datatype actor = Producer | Consumer | Cancel string

definition request_cancel :: "string \<Rightarrow> pipeline \<Rightarrow> pipeline" where
  "request_cancel job_id s =
     (if job_id \<in> set (keys (job_cancellation s))
      then s\<lparr>job_cancellation := dict_set (job_cancellation s) job_id True\<rparr> else s)"

definition step :: "(string \<Rightarrow> bool) \<Rightarrow> world \<Rightarrow> 'p job \<Rightarrow> actor \<Rightarrow> pipeline \<Rightarrow> pipeline" where
  "step chk client job a s =
     (case a of
        Producer \<Rightarrow> (case producer_step chk job s of None \<Rightarrow> s | Some s' \<Rightarrow> s')
      | Consumer \<Rightarrow> (case consumer_step client job s of None \<Rightarrow> s | Some s' \<Rightarrow> s')
      | Cancel job_id \<Rightarrow> request_cancel job_id s)"

definition run ::
  "(string \<Rightarrow> bool) \<Rightarrow> world \<Rightarrow> 'p job \<Rightarrow> actor list \<Rightarrow> pipeline \<Rightarrow> pipeline"
where
  "run chk client job schedule s = foldl (\<lambda>s a. step chk client job a s) s schedule"

text \<open>
  The state when both threads start: an empty queue, the job registered as not
  cancelled, an empty snapshot, nothing written.
\<close>

definition start :: "(string \<times> bool) list \<Rightarrow> pipeline" where
  "start cancellation =
     \<lparr>file_queue = [], job_cancellation = cancellation,
      p_phase = P_start, todo = [], successful = 0, failed_urls = [],
      c_phase = C_check, accumulated_data = get_empty_structure, file_count = 0,
      progress_file = None, output_json = None, openai_log = [],
      put_items = [], processed = []\<rparr>"

text \<open>
  The sequential fold the consumer is compared with: the snapshot after handing the
  paths to \<open>extract_value_from_file\<close> one after the other, from the left, and the
  exception that ends it, if any.
\<close>

fun fold_files ::
  "world \<Rightarrow> string list \<Rightarrow> json \<times> log_entry list \<Rightarrow> error + json \<times> log_entry list"
where
  "fold_files client [] acc = Inr acc"
| "fold_files client (filepath # paths) (data, log) =
     (case extract_value_from_file client filepath data log of
        Inl e \<Rightarrow> Inl e
      | Inr acc' \<Rightarrow> fold_files client paths acc')"


section \<open>The priority formula\<close>

text \<open>
  The formula of the specification, written from its words, to compare
  \<open>calculate_priority\<close> with: the segments of a path are its non-empty parts between
  slashes; the context bonus; the bonus for the number of segments, which the
  specification gives for one segment and more; and the score, where a URL "carries a
  query string" when its query component is not empty. Where the table of the
  specification has no entry the formula has no value.
\<close>

definition path_segments :: "string \<Rightarrow> string list" where
  "path_segments path = filter (\<lambda>p. p \<noteq> []) (split (CHR ''/'') path)"

definition context_bonus :: "string \<Rightarrow> int" where
  "context_bonus context =
     (if context = ''nav'' then 30
      else if context = ''footer'' then 20
      else if context = ''homepage'' then 25
      else 0)"

definition spec_segment_bonus :: "nat \<Rightarrow> int option" where
  "spec_segment_bonus n =
     (if n = 1 then Some 20
      else if n = 2 then Some 10
      else if n = 3 then Some 0
      else if n = 4 then Some (- 10)
      else if 5 \<le> n then Some (- 20)
      else None)"

definition spec_priority :: "ParseResult \<Rightarrow> string \<Rightarrow> int \<Rightarrow> int option" where
  "spec_priority parsed context depth =
     (if p_path parsed = ''/'' \<or> p_path parsed = [] then Some 100
      else (case spec_segment_bonus (length (path_segments (p_path parsed))) of
              None \<Rightarrow> None
            | Some bonus \<Rightarrow>
                Some (max 0 (min 100 (50 + context_bonus context + bonus - 5 * depth
                                       - (if p_query parsed \<noteq> [] then 5 else 0))))))"

text \<open>
  The formula as amended: every number of segments other than one to four, none
  included, gives \<open>- 20\<close>, and the query penalty applies when the URL string contains a
  question mark.
\<close>

definition segment_bonus :: "nat \<Rightarrow> int" where
  "segment_bonus n =
     (if n = 1 then 20 else if n = 2 then 10 else if n = 3 then 0
      else if n = 4 then - 10 else - 20)"

definition priority_formula :: "string \<Rightarrow> string \<Rightarrow> string \<Rightarrow> int \<Rightarrow> int" where
  "priority_formula path url context depth =
     (if path = ''/'' \<or> path = [] then 100
      else max 0 (min 100 (50 + context_bonus context
                             + segment_bonus (length (path_segments path))
                             - 5 * depth
                             - (if CHR ''?'' \<in> set url then 5 else 0))))"


section \<open>An example site\<close>

text \<open>
  A small site for the concrete runs below: a sitemap with three locations (one of them
  an image), a home page with two links and a page with two more. \<open>any_host\<close>
  accepts every bracketed host, as releases without that check do.
\<close>

definition any_host :: "string \<Rightarrow> bool" where
  "any_host host = True"

definition demo_sitemap :: "string \<Rightarrow> sitemap_response" where
  "demo_sitemap url =
     (if url = ''https://example.com/sitemap.xml''
      then Document [] [Some ''https://example.com/about/'',
                        Some ''https://example.com/blog?utm_source=feed'',
                        Some ''https://example.com/logo.png'']
      else Status_not_200)"

definition demo_links :: "string \<Rightarrow> (string \<times> string) list" where
  "demo_links url =
     (if url = ''https://example.com''
      then [(''https://example.com/about'', ''nav''), (''https://example.com/team'', ''homepage'')]
      else if url = ''https://example.com/team''
      then [(''https://example.com'', ''nav''), (''https://example.com/team/ada'', ''body'')]
      else [])"

definition demo_self :: "int \<Rightarrow> SmartCrawler" where
  "demo_self budget = projr (init any_host ''https://example.com'' ''urls.csv'' budget)"

definition demo_start :: "int \<Rightarrow> walk" where
  "demo_start budget = projr (discover_start any_host demo_sitemap (demo_self budget))"

definition demo_walk :: "int \<Rightarrow> nat \<Rightarrow> walk" where
  "demo_walk budget n = projr (walk_iterate any_host demo_links n (demo_start budget))"

text \<open>
  A small job for the pipeline: four useful URLs, the second of which times out on
  every attempt; the chat completion raises for the page \<open>about\<close>; the job is
  registered as \<open>job1\<close> and both loops were given its id.
\<close>

definition demo_world :: world where
  "demo_world =
     \<lparr>read_file_content = (\<lambda>p. Some (''# '' @ p)),
      chat_completion = (\<lambda>data content.
         if content = ''# content/3_about.md'' then Chat_raises ''rate limit''
         else Chat_response content (10, 5, 15)),
      json_loads = (\<lambda>text. Some (JObj [(''company_name'', JStr ''Example''),
                                          (''description'', JStr text)]))\<rparr>"

definition demo_job :: "string job" where
  "demo_job =
     \<lparr>useful_urls = [''https://example.com'', ''https://example.com/down'',
                     ''https://example.com/about'', ''https://example.com/jobs''],
      retries = 2,
      fetch_of = (\<lambda>url k. if url = ''https://example.com/down''
                           then Timeout ''timed out'' else Page url),
      save_as_markdown = (\<lambda>data filename. ''content/'' @ filename),
      producer_job_id = Some ''job1'',
      consumer_job_id = Some ''job1''\<rparr>"

definition demo_run :: "actor list \<Rightarrow> pipeline" where
  "demo_run schedule = run any_host demo_world demo_job schedule (start [(''job1'', False)])"

section \<open>Predicates of the walk\<close>

text \<open>What the loop over a page's links can change.\<close>

definition links_effect :: "int \<Rightarrow> walk \<Rightarrow> walk \<Rightarrow> bool" where
  "links_effect current_depth w w' \<longleftrightarrow>
     crawled w' = crawled w \<and> fetched w' = fetched w
     \<and> max_urls (crawler w') = max_urls (crawler w)
     \<and> max_depth (crawler w') = max_depth (crawler w)
     \<and> base_url (crawler w') = base_url (crawler w)
     \<and> (\<exists>new. keys (discovered_urls (crawler w')) = keys (discovered_urls (crawler w)) @ new
            \<and> distinct new \<and> set new \<inter> set (keys (discovered_urls (crawler w))) = {}
            \<and> (new \<noteq> [] \<longrightarrow> int (length (discovered_urls (crawler w'))) \<le> max_urls (crawler w))
            \<and> to_crawl w' = to_crawl w @ (if current_depth + 1 \<le> max_depth (crawler w)
                                            then map (\<lambda>u. (u, current_depth + 1)) new else []))"

text \<open>The sitemap loader reads only the constant fields of the object.\<close>

definition same_config :: "'a SmartCrawler_scheme \<Rightarrow> 'b SmartCrawler_scheme \<Rightarrow> bool" where
  "same_config a b \<longleftrightarrow>
     base_url a = base_url b \<and> domain a = domain b
     \<and> tracking_params a = tracking_params b \<and> skip_patterns a = skip_patterns b"

text \<open>
  Every URL the loader returns is what \<open>clean_url\<close> gives for the text of a location,
  and no skip pattern matches it.
\<close>

definition seed_ok :: "(string \<Rightarrow> bool) \<Rightarrow> 'a SmartCrawler_scheme \<Rightarrow> string \<Rightarrow> bool" where
  "seed_ok chk self u \<longleftrightarrow>
     \<not> should_skip_url self u \<and> (\<exists>loc. clean_url_text chk self loc = Inr u)"

text \<open>The walk visits a page at most once and enqueues only children within the depth limit.\<close>

definition walk_inv :: "string \<Rightarrow> int \<Rightarrow> walk \<Rightarrow> bool" where
  "walk_inv base md w \<longleftrightarrow>
     distinct (fetched w) \<and> set (fetched w) = crawled w
     \<and> base_url (crawler w) = base \<and> max_depth (crawler w) = md
     \<and> list_all (\<lambda>(u, d). (u, d) = (base, 0) \<or> 1 \<le> d \<and> d \<le> md) (to_crawl w)"

text \<open>No URL of a set \<open>S\<close> of already discovered URLs is on the queue or visited, the base URL apart.\<close>

definition seeds_inv :: "string set \<Rightarrow> string \<Rightarrow> walk \<Rightarrow> bool" where
  "seeds_inv S base w \<longleftrightarrow>
     S \<subseteq> set (keys (discovered_urls (crawler w)))
     \<and> (\<forall>(u, d) \<in> set (to_crawl w). u \<in> S \<longrightarrow> u = base)
     \<and> (\<forall>u \<in> set (fetched w). u \<in> S \<longrightarrow> u = base)"

section \<open>Predicates of the pipeline\<close>

text \<open>
  The consumer's snapshot and log are the sequential fold over the paths it processed.
\<close>

definition folded :: "world \<Rightarrow> pipeline \<Rightarrow> bool" where
  "folded client s \<longleftrightarrow>
     fold_files client (processed s) (get_empty_structure, [])
       = Inr (accumulated_data s, openai_log s)"

text \<open>
  What holds of the consumer at each point of its loop: the items put on the queue are
  the processed paths, then what the drain loop removed or the sentinel, then the
  queue; the output file is written only on the way out.
\<close>

definition consumer_inv :: "world \<Rightarrow> pipeline \<Rightarrow> bool" where
  "consumer_inv client s \<longleftrightarrow>
     file_count s = length (processed s)
     \<and> (processed s = [] \<longrightarrow> progress_file s = None)
     \<and> (case c_phase s of
           C_check \<Rightarrow> put_items s = map Some (processed s) @ file_queue s
                       \<and> folded client s \<and> output_json s = None
         | C_get \<Rightarrow> put_items s = map Some (processed s) @ file_queue s
                       \<and> folded client s \<and> output_json s = None
         | C_drain \<Rightarrow> (\<exists>dr. put_items s = map Some (processed s) @ dr @ file_queue s)
                       \<and> folded client s \<and> output_json s = None
         | C_cancelled \<Rightarrow> (\<exists>dr. put_items s = map Some (processed s) @ dr @ file_queue s)
                       \<and> folded client s
                       \<and> output_json s = (if 0 < file_count s then Some (accumulated_data s) else None)
         | C_finished \<Rightarrow> put_items s = map Some (processed s) @ None # file_queue s
                       \<and> folded client s \<and> output_json s = Some (accumulated_data s)
         | C_raised e \<Rightarrow> put_items s = map Some (processed s) @ file_queue s
                       \<and> fold_files client (processed s) (get_empty_structure, []) = Inl e
                       \<and> output_json s = None)"

text \<open>The producer puts the sentinel once, last.\<close>

definition producer_inv :: "pipeline \<Rightarrow> bool" where
  "producer_inv s \<longleftrightarrow>
     (if p_phase s = P_returned then \<exists>paths. put_items s = map Some paths @ [None]
      else None \<notin> set (put_items s))"

text \<open>After the cancellation was seen: nothing more is processed.\<close>

definition draining :: "'p job \<Rightarrow> pipeline \<Rightarrow> pipeline \<Rightarrow> bool" where
  "draining job s t \<longleftrightarrow>
     cancelled (consumer_job_id job) (job_cancellation t)
     \<and> processed t = processed s \<and> accumulated_data t = accumulated_data s
     \<and> file_count t = file_count s \<and> progress_file t = progress_file s
     \<and> (c_phase t = C_check \<or> c_phase t = C_drain \<or> c_phase t = C_cancelled)
     \<and> output_json t = (if c_phase t = C_cancelled \<and> 0 < file_count s
                         then Some (accumulated_data s) else output_json s)"

text \<open>
  Progress of the consumer. A schedule of \<open>moves_only\<close> holds no cancel request.
  \<open>consumer_need\<close> bounds the steps the consumer takes to the end of a queue that
  holds the sentinel: a test and a \<open>get\<close> for each item. \<open>fed\<close> is the situation in which
  it applies: the producer has returned after putting \<open>paths\<close> and the sentinel, and no
  cancellation was seen.
\<close>

definition moves_only :: "actor list \<Rightarrow> bool" where
  "moves_only later = list_all (\<lambda>a. a = Producer \<or> a = Consumer) later"

definition consumer_need :: "pipeline \<Rightarrow> nat" where
  "consumer_need s =
     (case c_phase s of
        C_check \<Rightarrow> 2 * length (file_queue s)
      | C_get \<Rightarrow> 2 * length (file_queue s) - 1
      | _ \<Rightarrow> 0)"

definition fed :: "world \<Rightarrow> 'p job \<Rightarrow> string list \<Rightarrow> pipeline \<Rightarrow> bool" where
  "fed client job paths s \<longleftrightarrow>
     consumer_inv client s \<and> p_phase s = P_returned
     \<and> put_items s = map Some paths @ [None]
     \<and> \<not> cancelled (consumer_job_id job) (job_cancellation s)
     \<and> c_phase s \<noteq> C_drain \<and> c_phase s \<noteq> C_cancelled"

text \<open>The consumer leaves its loop by the cancellation branch only when the flag is set.\<close>

definition drain_inv :: "'p job \<Rightarrow> pipeline \<Rightarrow> bool" where
  "drain_inv job s \<longleftrightarrow>
     (c_phase s = C_drain \<or> c_phase s = C_cancelled
        \<longrightarrow> cancelled (consumer_job_id job) (job_cancellation s))"







section \<open>URL normalisation: what the parts of a URL satisfy\<close>

text \<open>
  The predicates and auxiliary functions the statements about \<open>clean_url\<close> are written
  with. \<open>ascii\<close> holds of a string of ASCII characters; \<open>text_ok\<close> of a string that UTF-8
  decoding leaves as it is, which ASCII text is.
\<close>

definition ascii :: "string \<Rightarrow> bool" where
  "ascii s = list_all (\<lambda>c. (of_char c :: nat) < 128) s"

definition text_ok :: "string \<Rightarrow> bool" where
  "text_ok s = (decode_replace s = s)"

text \<open>
  What \<open>quote_plus\<close> writes for one character, and the same before the space is
  turned into a plus sign.
\<close>

definition enc :: "char \<Rightarrow> string" where
  "enc c =
     (if c = CHR '' '' then ''+''
      else if c \<in> set ALWAYS_SAFE then [c]
      else [CHR ''%'', hex_upper (of_char c div 16), hex_upper (of_char c)])"

definition enc_space :: "char \<Rightarrow> string" where
  "enc_space c =
     (if c = CHR '' '' then '' ''
      else if c \<in> set ALWAYS_SAFE then [c]
      else [CHR ''%'', hex_upper (of_char c div 16), hex_upper (of_char c)])"

text \<open>
  A dictionary as \<open>parse_qs\<close> builds it: every key once, no empty list of values
  (\<open>dict_ok\<close>), and decoded text throughout (\<open>dict_text_ok\<close>). \<open>flat\<close> lists its
  pairs in order, \<open>dict_step\<close> is the body of the loop of \<open>parse_qs\<close>, and \<open>pieces\<close>
  are the \<open>name=value\<close> fields that \<open>urlencode\<close> joins.
\<close>

definition dict_ok :: "(string \<times> string list) list \<Rightarrow> bool" where
  "dict_ok d = (distinct (map fst d) \<and> list_all (\<lambda>(k, vs). vs \<noteq> []) d)"

definition dict_text_ok :: "(string \<times> string list) list \<Rightarrow> bool" where
  "dict_text_ok d = list_all (\<lambda>(k, vs). text_ok k \<and> list_all text_ok vs) d"

definition flat :: "(string \<times> string list) list \<Rightarrow> (string \<times> string) list" where
  "flat d = concat (map (\<lambda>(k, vs). map (Pair k) vs) d)"

definition dict_step ::
  "(string \<times> string list) list \<Rightarrow> string \<times> string \<Rightarrow> (string \<times> string list) list" where
  "dict_step = (\<lambda>parsed_result (name, val). dict_append parsed_result name val)"

definition pieces :: "(string \<times> string list) list \<Rightarrow> string list" where
  "pieces d = concat (map (\<lambda>(k, v). map (\<lambda>elt. quote_plus k @ ''='' @ quote_plus elt) v) d)"

definition query_chars :: string where
  "query_chars = ALWAYS_SAFE @ ''+%=&''"

text \<open>
  The components of a parsed URL: a scheme is in lower case and starts with a letter;
  no component holds a tab or a line break; an authority that is present has no
  \<open>/ ? #\<close> and passed the test of its brackets; the path after an authority is empty or
  starts with a slash, and has no \<open>? #\<close>.
\<close>

definition lower_scheme_chars :: string where
  "lower_scheme_chars = ascii_lowercase @ digits @ ''+-.''"

definition scheme_ok :: "string \<Rightarrow> bool" where
  "scheme_ok S = (S \<noteq> [] \<and> hd S \<in> set ascii_lowercase
                   \<and> list_all (\<lambda>c. c \<in> set lower_scheme_chars) S)"

definition url_text :: "string \<Rightarrow> bool" where
  "url_text s = list_all (\<lambda>c. c \<notin> set UNSAFE_URL_BYTES_TO_REMOVE) s"

definition brackets_ok :: "(string \<Rightarrow> bool) \<Rightarrow> string \<Rightarrow> bool" where
  "brackets_ok chk netloc =
     (\<not> ((CHR ''['' \<in> set netloc \<and> CHR '']'' \<notin> set netloc)
          \<or> (CHR '']'' \<in> set netloc \<and> CHR ''['' \<notin> set netloc))
      \<and> \<not> (CHR ''['' \<in> set netloc \<and> CHR '']'' \<in> set netloc \<and> \<not> chk (bracketed_host netloc)))"

definition authority_ok :: "(string \<Rightarrow> bool) \<Rightarrow> string \<Rightarrow> bool" where
  "authority_ok chk N =
     (N \<noteq> [] \<and> brackets_ok chk N \<and> url_text N \<and> list_all (\<lambda>c. c \<notin> set ''/?#'') N)"

definition path_ok :: "string \<Rightarrow> bool" where
  "path_ok P =
     ((P = [] \<or> hd P = CHR ''/'') \<and> url_text P
      \<and> CHR ''?'' \<notin> set P \<and> CHR ''#'' \<notin> set P)"

section \<open>The walk: lemmas\<close>

lemma keys_dict_set:
  "keys (dict_set d k v) = (if k \<in> set (keys d) then keys d else keys d @ [k])"
  by (induction d) (force simp: keys_def)+

lemma length_dict_set:
  "length (dict_set d k v) = (if k \<in> set (keys d) then length d else Suc (length d))"
  by (induction d) (force simp: keys_def)+

lemma walk_iterate_invariant:
  assumes "walk_iterate chk links n w0 = Inr w"
    and "P w0"
    and "\<And>v v'. P v \<Longrightarrow> walk_cond v \<Longrightarrow> walk_step chk links v = Inr v' \<Longrightarrow> P v'"
  shows "P w"
  using assms(1,2)
proof (induction n arbitrary: w0)
  case 0
  then show ?case by simp
next
  case (Suc n)
  show ?case
  proof (cases "walk_cond w0")
    case True
    with Suc.prems obtain w1 where s: "walk_step chk links w0 = Inr w1"
      and r: "walk_iterate chk links n w1 = Inr w"
      by (auto split: sum.splits)
    from assms(3) [OF Suc.prems(2) True s] have "P w1" .
    with Suc.IH r show ?thesis by blast
  next
    case False
    with Suc.prems show ?thesis by simp
  qed
qed

lemma links_effect_refl: "links_effect d w w"
  unfolding links_effect_def by (intro conjI exI [of _ "[]"]) simp_all

lemma add_links_effect:
  "add_links chk d page_links w = Inr w' \<Longrightarrow> links_effect d w w'"
proof (induction page_links arbitrary: w)
  case Nil
  then show ?case by (simp add: links_effect_refl)
next
  case (Cons a page_links)
  obtain url ctx where a: "a = (url, ctx)" by (cases a)
  let ?self = "crawler w"
  show ?case
  proof (cases "max_urls ?self \<le> int (length (discovered_urls ?self))")
    case True
    with Cons.prems a show ?thesis by (simp add: links_effect_refl)
  next
    case budget: False
    with Cons.prems a obtain priority where
      pr: "calculate_priority chk url ctx (d + 1) = Inr priority"
      by (auto simp: Let_def split: sum.splits)
    show ?thesis
    proof (cases "url \<in> set (keys (discovered_urls ?self))")
      case True
      with Cons.prems a budget pr have "add_links chk d page_links w = Inr w'"
        by (simp add: Let_def)
      then show ?thesis by (rule Cons.IH)
    next
      case new: False
      define w1 where "w1 = w\<lparr>crawler :=
                      ?self\<lparr>discovered_urls := dict_set (discovered_urls ?self) url priority,
                            url_depths := dict_set (url_depths ?self) url (d + 1)\<rparr>,
                    to_crawl :=
                      (if d + 1 \<le> max_depth ?self
                       then to_crawl w @ [(url, d + 1)] else to_crawl w)\<rparr>"
      from Cons.prems a budget pr new have "add_links chk d page_links w1 = Inr w'"
        by (simp add: Let_def w1_def)
      then have e: "links_effect d w1 w'" by (rule Cons.IH)
      have k1: "keys (discovered_urls (crawler w1)) = keys (discovered_urls ?self) @ [url]"
        using new by (simp add: w1_def keys_dict_set)
      have l1: "length (discovered_urls (crawler w1)) = Suc (length (discovered_urls ?self))"
        using new by (simp add: w1_def length_dict_set)
      have f1: "crawled w1 = crawled w" "fetched w1 = fetched w"
        "max_urls (crawler w1) = max_urls ?self" "max_depth (crawler w1) = max_depth ?self"
        "base_url (crawler w1) = base_url ?self"
        by (simp_all add: w1_def)
      have q1: "to_crawl w1 = to_crawl w @ (if d + 1 \<le> max_depth ?self then [(url, d + 1)] else [])"
        by (simp add: w1_def)
      from e obtain new' where
        n: "keys (discovered_urls (crawler w')) = keys (discovered_urls (crawler w1)) @ new'"
          "distinct new'" "set new' \<inter> set (keys (discovered_urls (crawler w1))) = {}"
          "new' \<noteq> [] \<longrightarrow> int (length (discovered_urls (crawler w'))) \<le> max_urls (crawler w1)"
          "to_crawl w' = to_crawl w1 @ (if d + 1 \<le> max_depth (crawler w1)
                                            then map (\<lambda>u. (u, d + 1)) new' else [])"
        and r: "crawled w' = crawled w1" "fetched w' = fetched w1"
          "max_urls (crawler w') = max_urls (crawler w1)"
          "max_depth (crawler w') = max_depth (crawler w1)"
          "base_url (crawler w') = base_url (crawler w1)"
        unfolding links_effect_def by blast
      have len: "int (length (discovered_urls (crawler w'))) \<le> max_urls ?self"
      proof (cases "new' = []")
        case True
        with n(1) have "length (keys (discovered_urls (crawler w'))) = length (keys (discovered_urls (crawler w1)))"
          by simp
        then have "length (discovered_urls (crawler w')) = Suc (length (discovered_urls ?self))"
          using l1 by (simp add: keys_def)
        with budget show ?thesis by simp
      next
        case False
        with n(4) f1 show ?thesis by simp
      qed
      show ?thesis
        unfolding links_effect_def
      proof (intro conjI exI [of _ "url # new'"])
        show "keys (discovered_urls (crawler w')) = keys (discovered_urls ?self) @ url # new'"
          using n(1) k1 by simp
        show "distinct (url # new')" using n(2,3) k1 by auto
        show "set (url # new') \<inter> set (keys (discovered_urls ?self)) = {}"
          using n(3) k1 new by auto
        show "url # new' \<noteq> [] \<longrightarrow> int (length (discovered_urls (crawler w'))) \<le> max_urls ?self"
          using len by simp
        show "to_crawl w' = to_crawl w @ (if d + 1 \<le> max_depth ?self
                                            then map (\<lambda>u. (u, d + 1)) (url # new') else [])"
          using n(5) q1 f1 by simp
      qed (use r f1 in simp_all)
    qed
  qed
qed

lemma length_keys: "length (keys d) = length d" by (simp add: keys_def)

lemma map_of_dict_set: "map_of (dict_set d k v) = (map_of d)(k \<mapsto> v)"
  by (induction d) (auto simp: fun_eq_iff)

text \<open>One pass of the loop either drops the head of the queue or visits it.\<close>

lemma walk_step_effect:
  assumes "walk_step chk links w = Inr w'" and "to_crawl w = (cu, cd) # rest"
  shows "(cu \<in> crawled w \<or> max_depth (crawler w) < cd) \<and> w' = w\<lparr>to_crawl := rest\<rparr>
       \<or> cu \<notin> crawled w \<and> cd \<le> max_depth (crawler w)
         \<and> links_effect cd (w\<lparr>to_crawl := rest, crawled := insert cu (crawled w),
                                fetched := fetched w @ [cu]\<rparr>) w'"
  using assms unfolding walk_step_def
  by (auto split: if_splits dest: add_links_effect)

lemma walk_step_budget:
  assumes "walk_step chk links w = Inr w'"
  shows "max_urls (crawler w') = max_urls (crawler w)
       \<and> int (length (discovered_urls (crawler w')))
           \<le> max (max_urls (crawler w)) (int (length (discovered_urls (crawler w))))"
proof (cases "to_crawl w")
  case Nil
  with assms show ?thesis by (simp add: walk_step_def)
next
  case (Cons a rest)
  obtain cu cd where a: "a = (cu, cd)" by (cases a)
  from walk_step_effect [OF assms Cons [unfolded a]] show ?thesis
  proof
    assume "(cu \<in> crawled w \<or> max_depth (crawler w) < cd) \<and> w' = w\<lparr>to_crawl := rest\<rparr>"
    then show ?thesis by simp
  next
    assume "cu \<notin> crawled w \<and> cd \<le> max_depth (crawler w)
         \<and> links_effect cd (w\<lparr>to_crawl := rest, crawled := insert cu (crawled w),
                                fetched := fetched w @ [cu]\<rparr>) w'"
    then obtain new where m: "max_urls (crawler w') = max_urls (crawler w)"
      and k: "keys (discovered_urls (crawler w')) = keys (discovered_urls (crawler w)) @ new"
      and b: "new \<noteq> [] \<longrightarrow> int (length (discovered_urls (crawler w'))) \<le> max_urls (crawler w)"
      unfolding links_effect_def by auto
    show ?thesis
    proof (cases "new = []")
      case True
      with k have "length (discovered_urls (crawler w')) = length (discovered_urls (crawler w))"
        by (metis append_Nil2 length_keys)
      with m show ?thesis by simp
    next
      case False
      with b m show ?thesis by simp
    qed
  qed
qed

lemma walk_iterate_budget:
  assumes "walk_iterate chk links n w0 = Inr w"
  shows "max_urls (crawler w) = max_urls (crawler w0)
       \<and> int (length (discovered_urls (crawler w)))
           \<le> max (max_urls (crawler w0)) (int (length (discovered_urls (crawler w0))))"
proof (rule walk_iterate_invariant [OF assms])
  show "max_urls (crawler w0) = max_urls (crawler w0)
       \<and> int (length (discovered_urls (crawler w0)))
           \<le> max (max_urls (crawler w0)) (int (length (discovered_urls (crawler w0))))"
    by simp
next
  fix v v'
  assume "max_urls (crawler v) = max_urls (crawler w0)
       \<and> int (length (discovered_urls (crawler v)))
           \<le> max (max_urls (crawler w0)) (int (length (discovered_urls (crawler w0))))"
    and "walk_step chk links v = Inr v'"
  then show "max_urls (crawler v') = max_urls (crawler w0)
       \<and> int (length (discovered_urls (crawler v')))
           \<le> max (max_urls (crawler w0)) (int (length (discovered_urls (crawler w0))))"
    using walk_step_budget [of chk links v v'] by auto
qed

text \<open>Seeding changes the two dictionaries only.\<close>

lemma seed_sitemap_effect:
  "seed_sitemap chk urls self = Inr self' \<Longrightarrow>
     base_url self' = base_url self \<and> max_urls self' = max_urls self
     \<and> max_depth self' = max_depth self \<and> domain self' = domain self
     \<and> tracking_params self' = tracking_params self \<and> skip_patterns self' = skip_patterns self
     \<and> set (keys (discovered_urls self')) = set (keys (discovered_urls self)) \<union> set urls
     \<and> (\<forall>u. map_of (url_depths self') u =
            (if u \<in> set urls \<and> u \<notin> set (keys (discovered_urls self)) then Some 1
             else map_of (url_depths self) u))"
proof (induction urls arbitrary: self)
  case Nil
  then show ?case by simp
next
  case (Cons url urls)
  show ?case
  proof (cases "url \<in> set (keys (discovered_urls self))")
    case True
    with Cons.prems have "seed_sitemap chk urls self = Inr self'" by simp
    from Cons.IH [OF this] True show ?thesis by auto
  next
    case False
    with Cons.prems obtain priority where
      r: "seed_sitemap chk urls
            (self\<lparr>discovered_urls := dict_set (discovered_urls self) url priority,
                  url_depths := dict_set (url_depths self) url 1\<rparr>) = Inr self'"
      by (auto split: sum.splits)
    from Cons.IH [OF r] False show ?thesis
      by (auto simp: keys_dict_set map_of_dict_set)
  qed
qed

lemma clean_url_config: "same_config a b \<Longrightarrow> clean_url chk a url = clean_url chk b url"
  by (simp add: clean_url_def same_config_def split: sum.splits)

lemma should_skip_url_config: "same_config a b \<Longrightarrow> should_skip_url a url = should_skip_url b url"
  by (simp add: should_skip_url_def same_config_def)

lemma clean_url_text_config:
  "same_config a b \<Longrightarrow> clean_url_text chk a loc = clean_url_text chk b loc"
  by (simp add: clean_url_text_def clean_url_config [of a b] split: option.splits)

lemma add_locs_config:
  "same_config a b \<Longrightarrow> add_locs chk a found urls = add_locs chk b found urls"
  by (induction urls arbitrary: found)
     (simp_all add: clean_url_text_config [of a b] should_skip_url_config [of a b]
        split: sum.splits)

lemma add_subs_config:
  "same_config a b \<Longrightarrow> add_subs chk a found subs = add_subs chk b found subs"
proof (induction subs arbitrary: found)
  case Nil
  show ?case by simp
next
  case (Cons s subs)
  then show ?case by (cases s) (simp_all add: add_locs_config [of a b])
qed

lemma try_sitemaps_config:
  "same_config a b \<Longrightarrow> try_sitemaps chk get a found cs = try_sitemaps chk get b found cs"
  by (induction cs arbitrary: found)
     (simp_all add: add_locs_config [of a b] add_subs_config [of a b]
        split: sitemap_response.splits prod.splits option.splits)

lemma parse_sitemap_config:
  assumes "same_config a b"
  shows "parse_sitemap chk get a = parse_sitemap chk get b"
proof -
  have "base_url a = base_url b" and "domain a = domain b"
    using assms by (simp_all add: same_config_def)
  then show ?thesis
    unfolding parse_sitemap_def by (simp only: try_sitemaps_config [OF assms])
qed

lemma add_locs_ok:
  "\<forall>u \<in> set found. seed_ok chk self u \<Longrightarrow>
     \<forall>u \<in> set (fst (add_locs chk self found urls)). seed_ok chk self u"
proof (induction urls arbitrary: found)
  case Nil
  then show ?case by simp
next
  case (Cons url urls)
  show ?case
  proof (cases "clean_url_text chk self url")
    case (Inl e)
    with Cons.prems show ?thesis by simp
  next
    case (Inr c)
    have "\<forall>u \<in> set (if \<not> should_skip_url self c then found @ [c] else found). seed_ok chk self u"
      using Cons.prems Inr by (auto simp: seed_ok_def)
    from Cons.IH [OF this] Inr show ?thesis by simp
  qed
qed

lemma add_subs_ok:
  "\<forall>u \<in> set found. seed_ok chk self u \<Longrightarrow>
     \<forall>u \<in> set (add_subs chk self found subs). seed_ok chk self u"
proof (induction chk self found subs rule: add_subs.induct)
  case (3 chk self found_urls urls subs)
  from add_locs_ok [OF "3.prems"] have "\<forall>u\<in>set (fst (add_locs chk self found_urls urls)). seed_ok chk self u" .
  from "3.IH" [OF this] show ?case by simp
qed simp_all

lemma try_sitemaps_ok:
  "\<forall>u \<in> set found. seed_ok chk self u \<Longrightarrow>
     \<forall>u \<in> set (try_sitemaps chk get self found cs). seed_ok chk self u"
proof (induction cs arbitrary: found)
  case Nil
  then show ?case by simp
next
  case (Cons c cs)
  show ?case
  proof (cases "get c")
    case Request_raises
    with Cons show ?thesis by simp
  next
    case Status_not_200
    with Cons show ?thesis by simp
  next
    case (Document sitemaps urls)
    show ?thesis
    proof (cases "sitemaps = []")
      case False
      with Document add_subs_ok [OF Cons.prems, of "take 5 sitemaps"] show ?thesis by simp
    next
      case True
      obtain f r where a: "add_locs chk self found urls = (f, r)" by (cases "add_locs chk self found urls")
      from add_locs_ok [OF Cons.prems, of urls] a have f: "\<forall>u \<in> set f. seed_ok chk self u" by simp
      show ?thesis
      proof (cases r)
        case None
        with Document True a f show ?thesis by simp
      next
        case (Some e)
        with Document True a Cons.IH [OF f] show ?thesis by simp
      qed
    qed
  qed
qed

lemma parse_sitemap_ok: "\<forall>u \<in> set (parse_sitemap chk get self). seed_ok chk self u"
  unfolding parse_sitemap_def by (rule try_sitemaps_ok) simp

text \<open>The start state.\<close>

lemma discover_start_effect:
  assumes "discover_start chk get self = Inr w0"
  shows "to_crawl w0 = [(base_url self, 0)] \<and> crawled w0 = {} \<and> fetched w0 = []
       \<and> base_url (crawler w0) = base_url self \<and> max_urls (crawler w0) = max_urls self
       \<and> max_depth (crawler w0) = max_depth self
       \<and> set (keys (discovered_urls (crawler w0)))
           = set (keys (discovered_urls self)) \<union> {base_url self} \<union> set (parse_sitemap chk get self)
       \<and> (\<forall>u \<in> set (parse_sitemap chk get self).
             u \<notin> set (keys (discovered_urls self)) \<and> u \<noteq> base_url self
             \<longrightarrow> map_of (url_depths (crawler w0)) u = Some 1)"
proof -
  define self2 where "self2 = self\<lparr>discovered_urls := dict_set (discovered_urls self) (base_url self) 100,
                                   url_depths := dict_set (url_depths self) (base_url self) 0\<rparr>"
  have cfg: "same_config self2 self" by (simp add: same_config_def self2_def)
  have ps: "parse_sitemap chk get self2 = parse_sitemap chk get self"
    by (rule parse_sitemap_config [OF cfg])
  from assms obtain self3 where
    s: "seed_sitemap chk (parse_sitemap chk get self) self2 = Inr self3"
    and w0: "w0 = \<lparr>crawler = self3, to_crawl = [(base_url self, 0)], crawled = {}, fetched = []\<rparr>"
    unfolding discover_start_def Let_def
    by (auto simp: ps [unfolded self2_def] self2_def split: sum.splits)
  from seed_sitemap_effect [OF s] have e:
    "base_url self3 = base_url self2" "max_urls self3 = max_urls self2" "max_depth self3 = max_depth self2"
    "set (keys (discovered_urls self3)) = set (keys (discovered_urls self2)) \<union> set (parse_sitemap chk get self)"
    "\<And>u. map_of (url_depths self3) u =
            (if u \<in> set (parse_sitemap chk get self) \<and> u \<notin> set (keys (discovered_urls self2)) then Some 1
             else map_of (url_depths self2) u)"
    by auto
  have k2: "set (keys (discovered_urls self2)) = set (keys (discovered_urls self)) \<union> {base_url self}"
    by (auto simp: self2_def keys_dict_set)
  show ?thesis
    using e k2 by (simp add: w0 self2_def)
qed

lemma walk_step_inv:
  assumes "walk_step chk links w = Inr w'" and "walk_inv base md w"
  shows "walk_inv base md w'"
proof (cases "to_crawl w")
  case Nil
  with assms show ?thesis by (simp add: walk_step_def)
next
  case (Cons a rest)
  obtain cu cd where a: "a = (cu, cd)" by (cases a)
  from assms(2) Cons a have cd: "0 \<le> cd"
    and rest: "list_all (\<lambda>(u, d). (u, d) = (base, 0) \<or> 1 \<le> d \<and> d \<le> md) rest"
    by (auto simp: walk_inv_def)
  from walk_step_effect [OF assms(1) Cons [unfolded a]] show ?thesis
  proof
    assume "(cu \<in> crawled w \<or> max_depth (crawler w) < cd) \<and> w' = w\<lparr>to_crawl := rest\<rparr>"
    with assms(2) rest show ?thesis by (simp add: walk_inv_def)
  next
    assume h: "cu \<notin> crawled w \<and> cd \<le> max_depth (crawler w)
         \<and> links_effect cd (w\<lparr>to_crawl := rest, crawled := insert cu (crawled w),
                                fetched := fetched w @ [cu]\<rparr>) w'"
    then obtain new where e: "crawled w' = insert cu (crawled w)" "fetched w' = fetched w @ [cu]"
      "max_depth (crawler w') = max_depth (crawler w)" "base_url (crawler w') = base_url (crawler w)"
      "to_crawl w' = rest @ (if cd + 1 \<le> max_depth (crawler w)
                                            then map (\<lambda>u. (u, cd + 1)) new else [])"
      unfolding links_effect_def by auto
    have "list_all (\<lambda>(u, d). (u, d) = (base, 0) \<or> 1 \<le> d \<and> d \<le> md) (to_crawl w')"
      using e(5) rest cd assms(2) by (auto simp: walk_inv_def list_all_iff)
    with e h assms(2) show ?thesis by (auto simp: walk_inv_def)
  qed
qed

lemma walk_iterate_inv:
  assumes "walk_iterate chk links n w0 = Inr w" and "walk_inv base md w0"
  shows "walk_inv base md w"
  by (rule walk_iterate_invariant [OF assms(1), where P = "walk_inv base md"])
     (use assms(2) walk_step_inv in blast)+

lemma discover_start_inv:
  assumes "discover_start chk get self = Inr w0"
  shows "walk_inv (base_url self) (max_depth self) w0"
  using discover_start_effect [OF assms] by (simp add: walk_inv_def)

lemma walk_step_seeds:
  assumes "walk_step chk links w = Inr w'" and "seeds_inv S base w"
  shows "seeds_inv S base w'"
proof (cases "to_crawl w")
  case Nil
  with assms show ?thesis by (simp add: walk_step_def)
next
  case (Cons a rest)
  obtain cu cd where a: "a = (cu, cd)" by (cases a)
  from walk_step_effect [OF assms(1) Cons [unfolded a]] show ?thesis
  proof
    assume "(cu \<in> crawled w \<or> max_depth (crawler w) < cd) \<and> w' = w\<lparr>to_crawl := rest\<rparr>"
    with assms(2) Cons show ?thesis by (auto simp: seeds_inv_def)
  next
    assume "cu \<notin> crawled w \<and> cd \<le> max_depth (crawler w)
         \<and> links_effect cd (w\<lparr>to_crawl := rest, crawled := insert cu (crawled w),
                                fetched := fetched w @ [cu]\<rparr>) w'"
    then obtain new where e: "fetched w' = fetched w @ [cu]"
      "keys (discovered_urls (crawler w')) = keys (discovered_urls (crawler w)) @ new"
      "set new \<inter> set (keys (discovered_urls (crawler w))) = {}"
      "to_crawl w' = rest @ (if cd + 1 \<le> max_depth (crawler w)
                                            then map (\<lambda>u. (u, cd + 1)) new else [])"
      unfolding links_effect_def by auto
    from assms(2) have s: "S \<subseteq> set (keys (discovered_urls (crawler w)))"
      and q: "\<forall>(u, d) \<in> set (to_crawl w). u \<in> S \<longrightarrow> u = base"
      and f: "\<forall>u \<in> set (fetched w). u \<in> S \<longrightarrow> u = base"
      by (auto simp: seeds_inv_def)
    have "S \<subseteq> set (keys (discovered_urls (crawler w')))" using s e(2) by auto
    moreover have "\<forall>(u, d) \<in> set (to_crawl w'). u \<in> S \<longrightarrow> u = base"
      using q Cons a e(3,4) s by (auto split: if_splits)
    moreover have "\<forall>u \<in> set (fetched w'). u \<in> S \<longrightarrow> u = base"
      using f q Cons a e(1) by auto
    ultimately show ?thesis by (simp add: seeds_inv_def)
  qed
qed

section \<open>The content fetcher: lemmas\<close>

lemma attempt_loop_exhausted:
  assumes "int attempt < max_retries"
    and "\<forall>k. attempt \<le> k \<and> int k < max_retries \<longrightarrow> transient (fetch k)"
  shows "\<exists>r. attempt_loop max_retries url fetch attempt events
               = (Some r, events @ backoff_trace attempt (nat max_retries - attempt))
           \<and> \<not> extraction_successful r \<and> attempts r = max_retries \<and> page r = None
           \<and> metadata_url r = url
           \<and> (\<exists>m. error_message r = Some (m @ raised (fetch (nat max_retries - 1))))"
  using assms
proof (induction "nat max_retries - attempt" arbitrary: attempt events)
  case 0
  then show ?case by simp
next
  case (Suc d)
  have tr: "transient (fetch attempt)" using Suc.prems by simp
  show ?case
  proof (cases "int attempt < max_retries - 1")
    case True
    have d: "d = nat max_retries - Suc attempt" using Suc.hyps(2) by simp
    have lt: "int (Suc attempt) < max_retries" using True by simp
    have al: "\<forall>k. Suc attempt \<le> k \<and> int k < max_retries \<longrightarrow> transient (fetch k)"
      using Suc.prems(2) by simp
    from Suc.hyps(1) [OF d lt al, of "events @ [Request attempt, Sleep (2 ^ (attempt + 1))]"]
    obtain r where r: "attempt_loop max_retries url fetch (Suc attempt)
                         (events @ [Request attempt, Sleep (2 ^ (attempt + 1))])
               = (Some r, (events @ [Request attempt, Sleep (2 ^ (attempt + 1))])
                      @ backoff_trace (Suc attempt) (nat max_retries - Suc attempt))"
      "\<not> extraction_successful r" "attempts r = max_retries" "page r = None" "metadata_url r = url"
      "\<exists>m. error_message r = Some (m @ raised (fetch (nat max_retries - 1)))"
      by blast
    have ge: "attempt + 2 \<le> nat max_retries" using True by linarith
    define m where "m = nat max_retries - attempt - 2"
    have m: "nat max_retries - attempt = Suc (Suc m)" "nat max_retries - Suc attempt = Suc m"
      using ge by (simp_all add: m_def)
    have "attempt_loop max_retries url fetch attempt events
            = attempt_loop max_retries url fetch (Suc attempt)
                         (events @ [Request attempt, Sleep (2 ^ (attempt + 1))])"
      using tr True Suc.prems(1)
      by (subst attempt_loop.simps) (auto simp: transient_def split: attempt_outcome.splits)
    with r m show ?thesis by auto
  next
    case False
    with Suc.prems(1) have last: "nat max_retries - 1 = attempt" "nat max_retries - attempt = Suc 0"
      by auto
    show ?thesis
      using tr False Suc.prems(1) last
      by (subst attempt_loop.simps)
         (auto simp: transient_def raised_def split: attempt_outcome.splits)
  qed
qed

lemma requests_backoff: "requests (backoff_trace k n) = [k ..< k + n]"
  by (induction k n rule: backoff_trace.induct) (simp_all add: upt_rec)

lemma sleeps_backoff: "sleeps (backoff_trace k n) = map (\<lambda>j. 2 ^ j) [k + 1 ..< k + n]"
  by (induction k n rule: backoff_trace.induct) (simp_all add: upt_rec)

section \<open>The pipeline: lemmas\<close>

lemma fold_files_snoc:
  "fold_files client (paths @ [p]) acc =
     (case fold_files client paths acc of
        Inl e \<Rightarrow> Inl e
      | Inr (d, l) \<Rightarrow> extract_value_from_file client p d l)"
proof (induction paths arbitrary: acc)
  case Nil
  show ?case by (cases acc) (simp split: sum.splits)
next
  case (Cons a paths)
  show ?case by (cases acc) (simp add: Cons split: sum.splits)
qed

text \<open>What a step of the producer can change.\<close>

lemma producer_step_effect:
  assumes "producer_step chk job s = Some s'"
  shows "(\<exists>items. file_queue s' = file_queue s @ items \<and> put_items s' = put_items s @ items
           \<and> (items = [] \<or> items = [None] \<and> p_phase s' = P_returned
                \<or> (\<exists>p. items = [Some p]) \<and> p_phase s' = p_phase s))
       \<and> p_phase s \<noteq> P_returned
       \<and> (p_phase s' = P_returned \<longrightarrow> put_items s' = put_items s @ [None])
       \<and> job_cancellation s' = job_cancellation s \<and> c_phase s' = c_phase s
       \<and> accumulated_data s' = accumulated_data s \<and> file_count s' = file_count s
       \<and> progress_file s' = progress_file s \<and> output_json s' = output_json s
       \<and> openai_log s' = openai_log s \<and> processed s' = processed s"
  using assms unfolding producer_step_def put_def
  by (auto simp: Let_def split: producer_phase.splits list.splits if_splits option.splits sum.splits)

lemma producer_step_consumer_inv:
  assumes "producer_step chk job s = Some s'" and "consumer_inv client s"
  shows "consumer_inv client s'"
proof -
  from producer_step_effect [OF assms(1)] obtain items where
    e: "file_queue s' = file_queue s @ items" "put_items s' = put_items s @ items"
      "c_phase s' = c_phase s" "accumulated_data s' = accumulated_data s"
      "file_count s' = file_count s" "progress_file s' = progress_file s"
      "output_json s' = output_json s" "openai_log s' = openai_log s"
      "processed s' = processed s"
    by blast
  show ?thesis
    using assms(2) e unfolding consumer_inv_def folded_def
    by (cases "c_phase s") auto
qed

lemma producer_step_producer_inv:
  assumes "producer_step chk job s = Some s'" and "producer_inv s"
  shows "producer_inv s'"
proof -
  from producer_step_effect [OF assms(1)] obtain items where
    e: "put_items s' = put_items s @ items"
      "items = [] \<or> items = [None] \<and> p_phase s' = P_returned
                \<or> (\<exists>p. items = [Some p]) \<and> p_phase s' = p_phase s"
      "p_phase s \<noteq> P_returned" "p_phase s' = P_returned \<longrightarrow> put_items s' = put_items s @ [None]"
    by blast
  from assms(2) e(3) have n: "None \<notin> set (put_items s)" by (simp add: producer_inv_def)
  then obtain paths where p: "put_items s = map Some paths"
    by (metis ex_map_conv not_None_eq)
  show ?thesis
  proof (cases "p_phase s' = P_returned")
    case True
    with e(4) p show ?thesis by (auto simp: producer_inv_def)
  next
    case False
    with e(1,2) n show ?thesis by (auto simp: producer_inv_def)
  qed
qed

lemma consumer_step_consumer_inv:
  assumes "consumer_step client job s = Some s'" and "consumer_inv client s"
  shows "consumer_inv client s'"
proof (cases "c_phase s")
  case C_check
  with assms show ?thesis
    by (auto simp: consumer_step_def consumer_inv_def folded_def split: if_splits)
next
  case C_get
  show ?thesis
  proof (cases "file_queue s")
    case Nil
    with assms C_get show ?thesis by (simp add: consumer_step_def)
  next
    case (Cons item rest)
    show ?thesis
    proof (cases item)
      case None
      with assms C_get Cons show ?thesis
        by (auto simp: consumer_step_def consumer_inv_def folded_def)
    next
      case (Some filepath)
      from assms(2) C_get have
        f: "fold_files client (processed s) (get_empty_structure, [])
              = Inr (accumulated_data s, openai_log s)"
        by (simp add: consumer_inv_def folded_def)
      have sn: "fold_files client (processed s @ [filepath]) (get_empty_structure, [])
              = extract_value_from_file client filepath (accumulated_data s) (openai_log s)"
        by (simp add: fold_files_snoc f)
      show ?thesis
      proof (cases "extract_value_from_file client filepath (accumulated_data s) (openai_log s)")
        case (Inl e)
        with assms C_get Cons Some sn show ?thesis
          by (auto simp: consumer_step_def consumer_inv_def folded_def)
      next
        case (Inr r)
        obtain d l where r: "r = (d, l)" by (cases r)
        with assms C_get Cons Some sn Inr show ?thesis
          by (auto simp: consumer_step_def consumer_inv_def folded_def)
      qed
    qed
  qed
next
  case C_drain
  show ?thesis
  proof (cases "file_queue s")
    case Nil
    with assms C_drain show ?thesis
      by (auto simp: consumer_step_def consumer_inv_def folded_def)
  next
    case (Cons item rest)
    from assms(2) C_drain obtain dr where
      "put_items s = map Some (processed s) @ dr @ file_queue s"
      by (auto simp: consumer_inv_def)
    with Cons have "put_items s = map Some (processed s) @ (dr @ [item]) @ rest" by simp
    with assms C_drain Cons show ?thesis
      unfolding consumer_step_def consumer_inv_def folded_def
      by (auto simp del: append_assoc)
  qed
next
  case C_cancelled
  with assms show ?thesis by (simp add: consumer_step_def)
next
  case C_finished
  with assms show ?thesis by (simp add: consumer_step_def)
next
  case (C_raised e)
  with assms show ?thesis by (simp add: consumer_step_def)
qed

lemma consumer_step_producer:
  "consumer_step client job s = Some s' \<Longrightarrow>
     put_items s' = put_items s \<and> p_phase s' = p_phase s
     \<and> job_cancellation s' = job_cancellation s"
  unfolding consumer_step_def
  by (auto split: consumer_phase.splits list.splits option.splits sum.splits if_splits)

lemma request_cancel_inv:
  "consumer_inv client (request_cancel j s) = consumer_inv client s
   \<and> producer_inv (request_cancel j s) = producer_inv s"
  unfolding request_cancel_def consumer_inv_def producer_inv_def folded_def
  by (cases "j \<in> set (keys (job_cancellation s))")
     (simp_all cong: consumer_phase.case_cong)

lemma step_inv:
  assumes "consumer_inv client s \<and> producer_inv s"
  shows "consumer_inv client (step chk client job a s) \<and> producer_inv (step chk client job a s)"
proof (cases a)
  case Producer
  show ?thesis
  proof (cases "producer_step chk job s")
    case None
    with Producer assms show ?thesis by (simp add: step_def)
  next
    case (Some s')
    with Producer assms producer_step_consumer_inv [OF Some] producer_step_producer_inv [OF Some]
    show ?thesis by (simp add: step_def)
  qed
next
  case Consumer
  show ?thesis
  proof (cases "consumer_step client job s")
    case None
    with Consumer assms show ?thesis by (simp add: step_def)
  next
    case (Some s')
    with Consumer assms consumer_step_consumer_inv [OF Some] consumer_step_producer [OF Some]
    show ?thesis by (simp add: step_def producer_inv_def)
  qed
next
  case (Cancel j)
  with assms request_cancel_inv [of client j s] show ?thesis
    by (simp add: step_def)
qed

lemma run_snoc: "run chk client job (schedule @ [a]) s = step chk client job a (run chk client job schedule s)"
  by (simp add: run_def)


lemma run_inv:
  assumes "consumer_inv client s \<and> producer_inv s"
  shows "consumer_inv client (run chk client job schedule s)
       \<and> producer_inv (run chk client job schedule s)"
proof (induction schedule rule: rev_induct)
  case Nil
  from assms show ?case by (simp add: run_def)
next
  case (snoc a schedule)
  from step_inv [OF snoc] show ?case by (simp add: run_snoc)
qed

lemma start_inv: "consumer_inv client (start c) \<and> producer_inv (start c)"
  by (simp add: start_def consumer_inv_def producer_inv_def folded_def)

lemma sentinel_last:
  "map Some xs @ None # q = map Some ys @ [None] \<Longrightarrow> q = [] \<and> xs = ys"
proof (induction xs arbitrary: ys)
  case Nil
  then show ?case by (cases ys) auto
next
  case (Cons x xs)
  then show ?case by (cases ys) auto
qed

lemma reachable_inv:
  "consumer_inv client (run chk client job schedule (start c))
   \<and> producer_inv (run chk client job schedule (start c))"
  by (rule run_inv [OF start_inv])

lemma dict_set_nonempty: "dict_set d k v \<noteq> []"
  by (cases d) (auto split: if_splits)

lemma cancelled_request_cancel:
  "cancelled job_id (job_cancellation s) \<Longrightarrow>
     cancelled job_id (job_cancellation (request_cancel j s))"
  by (auto simp: cancelled_def request_cancel_def map_of_dict_set dict_set_nonempty
        split: option.splits)

lemma step_draining:
  assumes "draining job s t"
  shows "draining job s (step chk client job a t)"
proof (cases a)
  case Producer
  show ?thesis
  proof (cases "producer_step chk job t")
    case None
    with Producer assms show ?thesis by (simp add: step_def)
  next
    case (Some t')
    from producer_step_effect [OF Some] assms Producer Some show ?thesis
      by (simp add: step_def draining_def)
  qed
next
  case Consumer
  from assms have "c_phase t = C_check \<or> c_phase t = C_drain \<or> c_phase t = C_cancelled"
    by (simp add: draining_def)
  then show ?thesis
  proof (elim disjE)
    assume "c_phase t = C_check"
    with assms Consumer show ?thesis
      by (simp add: step_def consumer_step_def draining_def)
  next
    assume "c_phase t = C_drain"
    with assms Consumer show ?thesis
      by (cases "file_queue t") (simp_all add: step_def consumer_step_def draining_def)
  next
    assume "c_phase t = C_cancelled"
    with assms Consumer show ?thesis
      by (simp add: step_def consumer_step_def draining_def)
  qed
next
  case (Cancel j)
  have f: "processed (request_cancel j t) = processed t"
    "accumulated_data (request_cancel j t) = accumulated_data t"
    "file_count (request_cancel j t) = file_count t"
    "progress_file (request_cancel j t) = progress_file t"
    "c_phase (request_cancel j t) = c_phase t"
    "output_json (request_cancel j t) = output_json t"
    by (simp_all add: request_cancel_def)
  from assms cancelled_request_cancel [of "consumer_job_id job" t j] Cancel f show ?thesis
    by (simp add: step_def draining_def)
qed

lemma run_draining:
  assumes "draining job s t"
  shows "draining job s (run chk client job schedule t)"
proof (induction schedule rule: rev_induct)
  case Nil
  from assms show ?case by (simp add: run_def)
next
  case (snoc a schedule)
  from step_draining [OF snoc] show ?case by (simp add: run_snoc)
qed

text \<open>The consumer alone empties the queue and returns.\<close>

lemma drain_alone:
  assumes "c_phase t = C_drain"
  shows "run chk client job (replicate (Suc (length (file_queue t))) Consumer) t
           = t\<lparr>file_queue := [], c_phase := C_cancelled,
               output_json := (if 0 < file_count t then Some (accumulated_data t)
                               else output_json t)\<rparr>"
  using assms
proof (induction "file_queue t" arbitrary: t)
  case Nil
  then show ?case by (simp add: run_def step_def consumer_step_def)
next
  case (Cons item rest)
  have st: "step chk client job Consumer t = t\<lparr>file_queue := rest\<rparr>"
    using Cons.hyps(2) [symmetric] Cons.prems by (simp add: step_def consumer_step_def)
  have "run chk client job (replicate (Suc (length (file_queue t))) Consumer) t
          = run chk client job (replicate (Suc (length rest)) Consumer) (t\<lparr>file_queue := rest\<rparr>)"
    using Cons.hyps(2) [symmetric] st by (simp add: run_def)
  also have "\<dots> = (t\<lparr>file_queue := rest\<rparr>)\<lparr>file_queue := [], c_phase := C_cancelled,
               output_json := (if 0 < file_count (t\<lparr>file_queue := rest\<rparr>)
                               then Some (accumulated_data (t\<lparr>file_queue := rest\<rparr>))
                               else output_json (t\<lparr>file_queue := rest\<rparr>))\<rparr>"
    using Cons.hyps(1) [of "t\<lparr>file_queue := rest\<rparr>"] Cons.prems by simp
  finally show ?case by simp
qed

lemma cancel_alone:
  assumes "c_phase s = C_check" and "cancelled (consumer_job_id job) (job_cancellation s)"
  shows "run chk client job (replicate (length (file_queue s) + 2) Consumer) s
           = s\<lparr>file_queue := [], c_phase := C_cancelled,
               output_json := (if 0 < file_count s then Some (accumulated_data s)
                               else output_json s)\<rparr>"
proof -
  have st: "step chk client job Consumer s = s\<lparr>c_phase := C_drain\<rparr>"
    using assms by (simp add: step_def consumer_step_def)
  have "run chk client job (replicate (length (file_queue s) + 2) Consumer) s
          = run chk client job (replicate (Suc (length (file_queue (s\<lparr>c_phase := C_drain\<rparr>)))) Consumer)
              (s\<lparr>c_phase := C_drain\<rparr>)"
    using st by (simp add: run_def)
  also have "\<dots> = (s\<lparr>c_phase := C_drain\<rparr>)\<lparr>file_queue := [], c_phase := C_cancelled,
               output_json := (if 0 < file_count (s\<lparr>c_phase := C_drain\<rparr>)
                               then Some (accumulated_data (s\<lparr>c_phase := C_drain\<rparr>))
                               else output_json (s\<lparr>c_phase := C_drain\<rparr>))\<rparr>"
    by (rule drain_alone) simp
  finally show ?thesis by simp
qed

lemma draining_start:
  assumes "c_phase s = C_check" and "cancelled (consumer_job_id job) (job_cancellation s)"
  shows "draining job s s"
  using assms by (simp add: draining_def)

subsection \<open>The consumer reaches the sentinel\<close>

lemma fold_files_append:
  "fold_files client (xs @ ys) acc =
     (case fold_files client xs acc of
        Inl e \<Rightarrow> Inl e
      | Inr acc' \<Rightarrow> fold_files client ys acc')"
proof (induction xs arbitrary: acc)
  case Nil
  show ?case by simp
next
  case (Cons x xs)
  show ?case by (cases acc) (simp add: Cons split: sum.splits)
qed

lemma queue_has_sentinel:
  assumes "map Some done @ q = map Some paths @ [None]"
  shows "q \<noteq> [] \<and> prefix done paths"
proof -
  have "q \<noteq> []"
  proof
    assume "q = []"
    with assms have "None \<in> set (map Some done)" by (metis append_Nil2 in_set_conv_decomp)
    then show False by auto
  qed
  moreover have "prefix done paths"
    using assms
  proof (induction "done" arbitrary: paths)
    case Nil
    show ?case by simp
  next
    case (Cons d ds)
    then show ?case by (cases paths) auto
  qed
  ultimately show ?thesis by simp
qed

lemma fed_queue:
  assumes "fed client job paths s" and "c_phase s = C_check \<or> c_phase s = C_get"
  shows "map Some (processed s) @ file_queue s = map Some paths @ [None]"
proof -
  from assms(1) have ci: "consumer_inv client s"
    and b: "put_items s = map Some paths @ [None]"
    by (simp_all add: fed_def)
  from ci assms(2) have a: "put_items s = map Some (processed s) @ file_queue s"
    by (auto simp: consumer_inv_def)
  show ?thesis by (rule trans [OF a [symmetric] b])
qed

lemma fed_producer_step:
  assumes "fed client job paths s"
  shows "step chk client job Producer s = s"
  using assms by (simp add: fed_def step_def producer_step_def)

lemma fed_consumer_step:
  assumes "fed client job paths s"
  shows "fed client job paths (step chk client job Consumer s)
       \<and> consumer_need (step chk client job Consumer s) \<le> consumer_need s - 1"
proof (cases "consumer_step client job s")
  case None
  then have "c_phase s \<noteq> C_check"
    by (auto simp: consumer_step_def split: if_splits)
  moreover have "c_phase s = C_get \<Longrightarrow> False"
  proof -
    assume g: "c_phase s = C_get"
    with assms have "map Some (processed s) @ file_queue s = map Some paths @ [None]"
      by (simp add: fed_queue)
    from queue_has_sentinel [OF this] have "file_queue s \<noteq> []" by simp
    with None g show False
      by (cases "file_queue s"; cases "hd (file_queue s)")
         (auto simp: consumer_step_def split: sum.splits)
  qed
  ultimately have "consumer_need s = 0"
    by (cases "c_phase s") (auto simp: consumer_need_def)
  with None assms show ?thesis by (simp add: step_def)
next
  case (Some s')
  have st: "step chk client job Consumer s = s'" using Some by (simp add: step_def)
  from assms have ci: "consumer_inv client s" by (simp add: fed_def)
  have ci': "consumer_inv client s'" by (rule consumer_step_consumer_inv [OF Some ci])
  from consumer_step_producer [OF Some] assms
  have keep: "put_items s' = map Some paths @ [None]" "p_phase s' = P_returned"
    "\<not> cancelled (consumer_job_id job) (job_cancellation s')"
    by (simp_all add: fed_def)
  from assms have nc: "\<not> cancelled (consumer_job_id job) (job_cancellation s)"
    and ph: "c_phase s \<noteq> C_drain" "c_phase s \<noteq> C_cancelled"
    by (simp_all add: fed_def)
  have "c_phase s' \<noteq> C_drain \<and> c_phase s' \<noteq> C_cancelled
        \<and> consumer_need s' \<le> consumer_need s - 1"
    using Some nc ph unfolding consumer_step_def consumer_need_def
    by (auto split: consumer_phase.splits if_splits list.splits option.splits sum.splits)
  with ci' keep st show ?thesis by (simp add: fed_def)
qed

lemma fed_run:
  assumes "fed client job paths s" and "moves_only later"
    and "consumer_need s \<le> count_list later Consumer"
  shows "fed client job paths (run chk client job later s)
       \<and> consumer_need (run chk client job later s) = 0"
  using assms
proof (induction later arbitrary: s)
  case Nil
  then show ?case by (simp add: run_def)
next
  case (Cons a later)
  from Cons.prems(2) have a: "a = Producer \<or> a = Consumer" and m: "moves_only later"
    by (simp_all add: moves_only_def)
  have r: "run chk client job (a # later) s = run chk client job later (step chk client job a s)"
    by (simp add: run_def)
  from a show ?case
  proof
    assume p: "a = Producer"
    with Cons.prems(3) have "consumer_need s \<le> count_list later Consumer" by simp
    have "run chk client job (Producer # later) s = run chk client job later s"
      by (simp add: run_def fed_producer_step [OF Cons.prems(1)])
    with Cons.IH [OF Cons.prems(1) m \<open>consumer_need s \<le> count_list later Consumer\<close>]
    show ?thesis by (simp add: p)
  next
    assume c: "a = Consumer"
    note f = fed_consumer_step [OF Cons.prems(1), of chk]
    from Cons.prems(3) c have "consumer_need s - 1 \<le> count_list later Consumer"
      by simp
    with f
    have "consumer_need (step chk client job Consumer s) \<le> count_list later Consumer"
      by linarith
    have "run chk client job (Consumer # later) s
            = run chk client job later (step chk client job Consumer s)"
      by (simp add: run_def)
    with Cons.IH [OF conjunct1 [OF f] m
        \<open>consumer_need (step chk client job Consumer s) \<le> count_list later Consumer\<close>]
    show ?thesis by (simp add: c)
  qed
qed

lemma fed_ended:
  assumes "fed client job paths t" and "consumer_need t = 0"
  shows "(c_phase t = C_finished \<and> processed t = paths \<and> file_queue t = []
            \<and> fold_files client paths (get_empty_structure, [])
                = Inr (accumulated_data t, openai_log t)
            \<and> output_json t = Some (accumulated_data t))
       \<or> (\<exists>e. c_phase t = C_raised e \<and> prefix (processed t) paths
              \<and> fold_files client paths (get_empty_structure, []) = Inl e)"
proof (cases "c_phase t")
  case C_check
  with assms have "map Some (processed t) @ file_queue t = map Some paths @ [None]"
    by (simp add: fed_queue)
  from queue_has_sentinel [OF this] C_check assms(2) show ?thesis
    by (simp add: consumer_need_def)
next
  case C_get
  with assms have "map Some (processed t) @ file_queue t = map Some paths @ [None]"
    by (simp add: fed_queue)
  from queue_has_sentinel [OF this] C_get assms(2) show ?thesis
    by (cases "file_queue t") (simp_all add: consumer_need_def)
next
  case C_drain
  with assms show ?thesis by (simp add: fed_def)
next
  case C_cancelled
  with assms show ?thesis by (simp add: fed_def)
next
  case C_finished
  from assms(1) have ci: "consumer_inv client t"
    and b: "put_items t = map Some paths @ [None]"
    by (simp_all add: fed_def)
  from ci C_finished have a: "put_items t = map Some (processed t) @ None # file_queue t"
    and f: "fold_files client (processed t) (get_empty_structure, [])
              = Inr (accumulated_data t, openai_log t)"
    and o: "output_json t = Some (accumulated_data t)"
    by (simp_all add: consumer_inv_def folded_def)
  have q: "map Some (processed t) @ None # file_queue t = map Some paths @ [None]"
    by (rule trans [OF a [symmetric] b])
  from sentinel_last [OF q] f o C_finished show ?thesis by simp
next
  case (C_raised e)
  from assms(1) have ci: "consumer_inv client t"
    and b: "put_items t = map Some paths @ [None]"
    by (simp_all add: fed_def)
  from ci C_raised have a: "put_items t = map Some (processed t) @ file_queue t"
    and f: "fold_files client (processed t) (get_empty_structure, []) = Inl e"
    by (simp_all add: consumer_inv_def)
  have q: "map Some (processed t) @ file_queue t = map Some paths @ [None]"
    by (rule trans [OF a [symmetric] b])
  from queue_has_sentinel [OF q] obtain rest where p: "paths = processed t @ rest"
    by (auto simp: prefix_def)
  have "fold_files client paths (get_empty_structure, []) = Inl e"
    unfolding p fold_files_append by (simp add: f)
  with C_raised p show ?thesis by simp
qed

lemma step_drain_inv:
  assumes "drain_inv job s"
  shows "drain_inv job (step chk client job a s)"
proof (cases a)
  case Producer
  show ?thesis
  proof (cases "producer_step chk job s")
    case None
    with Producer assms show ?thesis by (simp add: step_def)
  next
    case (Some s')
    from producer_step_effect [OF Some] assms Producer Some show ?thesis
      by (simp add: step_def drain_inv_def)
  qed
next
  case Consumer
  show ?thesis
  proof (cases "consumer_step client job s")
    case None
    with Consumer assms show ?thesis by (simp add: step_def)
  next
    case (Some s')
    from Some assms have "drain_inv job s'"
      unfolding consumer_step_def drain_inv_def
      by (auto split: consumer_phase.splits if_splits list.splits option.splits sum.splits)
    with Consumer Some show ?thesis by (simp add: step_def)
  qed
next
  case (Cancel j)
  have "c_phase (request_cancel j s) = c_phase s" by (simp add: request_cancel_def)
  with assms cancelled_request_cancel [of "consumer_job_id job" s j] Cancel show ?thesis
    by (auto simp: step_def drain_inv_def)
qed

lemma reachable_drain_inv: "drain_inv job (run chk client job schedule (start c))"
proof (induction schedule rule: rev_induct)
  case Nil
  show ?case by (simp add: run_def start_def drain_inv_def)
next
  case (snoc a schedule)
  from step_drain_inv [OF snoc] show ?case by (simp add: run_snoc)
qed

subsection \<open>After the cancellation is signalled\<close>












section \<open>URLs: lemmas\<close>

lemma split_nonempty: "split sep s \<noteq> []"
  by (induction s) (auto split: list.splits)

lemma split_snoc_sep: "split sep (s @ [sep]) = split sep s @ [[]]"
proof (induction s)
  case Nil
  show ?case by simp
next
  case (Cons c cs)
  then show ?case using split_nonempty [of sep cs] by (cases "split sep cs") auto
qed

lemma split_append_replicate:
  "filter (\<lambda>p. p \<noteq> []) (split sep (s @ replicate n sep))
     = filter (\<lambda>p. p \<noteq> []) (split sep s)"
proof (induction n)
  case 0
  show ?case by simp
next
  case (Suc n)
  have "s @ replicate (Suc n) sep = (s @ replicate n sep) @ [sep]"
    by (simp add: replicate_append_same)
  then show ?case using Suc by (simp only: split_snoc_sep) simp
qed

lemma split_dropWhile_sep:
  "filter (\<lambda>p. p \<noteq> []) (split sep (dropWhile (\<lambda>c. c \<in> set [sep]) s))
     = filter (\<lambda>p. p \<noteq> []) (split sep s)"
  by (induction s) auto

lemma rstrip_decomp: "\<exists>n. s = rstrip [sep] s @ replicate n sep"
proof -
  let ?P = "\<lambda>c. c \<in> set [sep]"
  have "rev s = takeWhile ?P (rev s) @ dropWhile ?P (rev s)" by simp
  then have "s = rev (dropWhile ?P (rev s)) @ rev (takeWhile ?P (rev s))"
    by (metis rev_append rev_rev_ident)
  moreover have "rev (takeWhile ?P (rev s)) = replicate (length (takeWhile ?P (rev s))) sep"
  proof -
    have "\<forall>x \<in> set (rev (takeWhile ?P (rev s))). x = sep"
      using set_takeWhileD by fastforce
    then show ?thesis by (metis length_rev replicate_length_same)
  qed
  ultimately show ?thesis unfolding rstrip_def by metis
qed

lemma path_parts_strip:
  "filter (\<lambda>p. p \<noteq> []) (split sep (strip [sep] s)) = filter (\<lambda>p. p \<noteq> []) (split sep s)"
proof -
  obtain n where n: "lstrip [sep] s = rstrip [sep] (lstrip [sep] s) @ replicate n sep"
    using rstrip_decomp by blast
  have "filter (\<lambda>p. p \<noteq> []) (split sep (strip [sep] s))
          = filter (\<lambda>p. p \<noteq> []) (split sep (lstrip [sep] s))"
    unfolding strip_def
    using split_append_replicate [of sep "rstrip [sep] (lstrip [sep] s)" n] n by simp
  also have "\<dots> = filter (\<lambda>p. p \<noteq> []) (split sep s)"
    unfolding lstrip_def by (rule split_dropWhile_sep)
  finally show ?thesis .
qed

lemma priority_formula_range:
  "0 \<le> priority_formula path url ctx depth \<and> priority_formula path url ctx depth \<le> 100"
  by (simp add: priority_formula_def)

section \<open>URL normalisation: lemmas\<close>

subsection \<open>Decoding UTF-8\<close>

lemma utf8_head_ascii: "(of_char b :: nat) < 128 \<Longrightarrow> utf8_head (b # bs) = (1, True)"
  by (simp add: Let_def)

lemma decode_replace_Nil [simp]: "decode_replace [] = []"
  by (simp add: decode_replace.simps)

lemma decode_replace_ascii: "ascii s \<Longrightarrow> decode_replace s = s"
proof (induction s)
  case Nil
  show ?case by simp
next
  case (Cons b bs)
  then have "utf8_head (b # bs) = (1, True)" by (simp add: ascii_def utf8_head_ascii)
  with Cons show ?case by (subst decode_replace.simps) (simp add: ascii_def)
qed

text \<open>A well-formed sequence is recognised whatever follows it.\<close>

lemma utf8_head_take:
  assumes "utf8_head s = (n, True)" and "s \<noteq> []"
  shows "utf8_head (take n s @ t) = (n, True) \<and> 0 < n \<and> n \<le> length s"
proof (cases s)
  case Nil
  with assms show ?thesis by simp
next
  case (Cons b0 bs)
  show ?thesis
    using assms unfolding Cons
    by (auto simp: Let_def split: if_splits list.splits)
qed

lemma utf8_head_REPLACEMENT: "utf8_head (REPLACEMENT @ t) = (3, True)"
  by (simp add: REPLACEMENT_def Let_def cont_byte_def)

lemma decode_replace_REPLACEMENT:
  "decode_replace (REPLACEMENT @ t) = REPLACEMENT @ decode_replace t"
proof -
  have l: "length REPLACEMENT = 3" "REPLACEMENT @ t \<noteq> []"
    by (simp_all add: REPLACEMENT_def)
  show ?thesis
    by (subst decode_replace.simps) (simp add: utf8_head_REPLACEMENT l del: append_is_Nil_conv)
qed

lemma decode_replace_idem: "decode_replace (decode_replace s) = decode_replace s"
proof (induction s rule: decode_replace.induct)
  case (1 s)
  show ?case
  proof (cases "s = []")
    case True
    then show ?thesis by simp
  next
    case ne: False
    obtain n ok where h: "utf8_head s = (n, ok)" by (cases "utf8_head s")
    have IH: "decode_replace (decode_replace (drop n s)) = decode_replace (drop n s)"
      using "1.IH" [OF ne h [symmetric]] .
    have u: "decode_replace s = (if ok then take n s else REPLACEMENT) @ decode_replace (drop n s)"
      using ne h by (subst decode_replace.simps) simp
    show ?thesis
    proof (cases ok)
      case True
      from h True have h': "utf8_head s = (n, True)" by simp
      from utf8_head_take [OF h' ne]
      have k: "\<And>t. utf8_head (take n s @ t) = (n, True)" "0 < n" "n \<le> length s" by auto
      have "decode_replace (take n s @ decode_replace (drop n s))
              = take n s @ decode_replace (decode_replace (drop n s))"
        using k ne by (subst decode_replace.simps) (simp add: min_absorb2)
      with u True IH show ?thesis by simp
    next
      case False
      have "decode_replace (REPLACEMENT @ decode_replace (drop n s))
              = REPLACEMENT @ decode_replace (decode_replace (drop n s))"
        by (rule decode_replace_REPLACEMENT)
      with u False IH show ?thesis by simp
    qed
  qed
qed

subsection \<open>Percent-encoding and back\<close>

lemma hex_upper_cases:
  "hex_upper k \<in> set ''0123456789ABCDEF''"
  unfolding hex_upper_def by (rule nth_mem) simp

lemma hex_upper_hexdig: "hex_upper k \<in> set hexdig"
  using hex_upper_cases [of k] by (auto simp: hexdig_def)

lemma hex_val_hex_upper: "hex_val (hex_upper k) = k mod 16"
proof -
  define m where "m = k mod 16"
  have "m < 16" by (simp add: m_def)
  then have "m = 0 \<or> m = 1 \<or> m = 2 \<or> m = 3 \<or> m = 4 \<or> m = 5 \<or> m = 6 \<or> m = 7
    \<or> m = 8 \<or> m = 9 \<or> m = 10 \<or> m = 11 \<or> m = 12 \<or> m = 13 \<or> m = 14 \<or> m = 15"
    by arith
  then have "hex_val (''0123456789ABCDEF'' ! m) = m"
    by (elim disjE) (simp_all add: hex_val_def digits_def)
  then show ?thesis by (simp add: hex_upper_def m_def)
qed

lemma byte_of_hex:
  "char_of (16 * hex_val (hex_upper (of_char c div 16)) + hex_val (hex_upper (of_char c))) = c"
proof -
  have "(of_char c :: nat) mod 256 = of_char c" by (rule of_char_mod_256)
  then have "(of_char c :: nat) < 256" by (metis mod_less_divisor zero_less_numeral)
  then have "(of_char c :: nat) div 16 < 16" by arith
  then have "16 * ((of_char c :: nat) div 16 mod 16) + of_char c mod 16 = of_char c"
    by simp
  then show ?thesis by (simp add: hex_val_hex_upper)
qed

lemma unquote_to_bytes_literal:
  "c \<noteq> CHR ''%'' \<Longrightarrow> unquote_to_bytes (c # cs) = c # unquote_to_bytes cs"
  by (cases cs rule: unquote_to_bytes.cases) simp_all

lemma unquote_to_bytes_escape:
  "h1 \<in> set hexdig \<Longrightarrow> h2 \<in> set hexdig \<Longrightarrow>
     unquote_to_bytes (CHR ''%'' # h1 # h2 # rest)
       = char_of (16 * hex_val h1 + hex_val h2) # unquote_to_bytes rest"
  by simp

lemma safe_not_special:
  "c \<in> set ALWAYS_SAFE \<Longrightarrow>
     c \<noteq> CHR ''%'' \<and> c \<noteq> CHR ''+'' \<and> c \<noteq> CHR '' '' \<and> c \<noteq> CHR ''&'' \<and> c \<noteq> CHR ''=''
     \<and> c \<noteq> CHR ''#'' \<and> c \<noteq> CHR ''/'' \<and> c \<noteq> CHR ''?''
     \<and> c \<notin> set UNSAFE_URL_BYTES_TO_REMOVE"
  by (auto simp: ALWAYS_SAFE_def ascii_uppercase_def ascii_lowercase_def digits_def
        UNSAFE_URL_BYTES_TO_REMOVE_def)

lemma hex_upper_safe: "hex_upper k \<in> set ALWAYS_SAFE"
  using hex_upper_cases [of k]
  by (auto simp: ALWAYS_SAFE_def ascii_uppercase_def digits_def)

lemma unquote_to_bytes_enc_space:
  "unquote_to_bytes (enc_space c @ rest) = c # unquote_to_bytes rest"
proof (cases "c = CHR '' ''")
  case True
  then show ?thesis by (simp add: enc_space_def unquote_to_bytes_literal)
next
  case False
  show ?thesis
  proof (cases "c \<in> set ALWAYS_SAFE")
    case True
    with False safe_not_special [OF True] show ?thesis
      by (simp add: enc_space_def unquote_to_bytes_literal)
  next
    case unsafe: False
    with False show ?thesis
      by (simp add: enc_space_def byte_of_hex hex_upper_hexdig del: unquote_to_bytes.simps
            add: unquote_to_bytes_escape)
  qed
qed

lemma unquote_to_bytes_quoted: "unquote_to_bytes (concat (map enc_space s)) = s"
  by (induction s) (simp_all add: unquote_to_bytes_enc_space)

lemma plus_to_space_enc:
  "map (\<lambda>c. if c = CHR ''+'' then CHR '' '' else c) (enc c) = enc_space c"
  using safe_not_special [of c] hex_upper_safe safe_not_special
  by (auto simp: enc_def enc_space_def)

lemma quote_plus_enc: "quote_plus s = concat (map enc s)"
proof (cases "CHR '' '' \<in> set s")
  case False
  have "map (\<lambda>c. if c \<in> set ALWAYS_SAFE \<or> c \<in> set [] then [c]
                       else [CHR ''%'', hex_upper (of_char c div 16), hex_upper (of_char c)]) s
          = map enc s"
    using False by (intro map_cong) (auto simp: enc_def)
  then have "quote s [] = concat (map enc s)"
    unfolding quote_def by (rule arg_cong)
  with False show ?thesis by (simp add: quote_plus_def)
next
  case True
  have "map (\<lambda>c. if c = CHR '' '' then CHR ''+'' else c)
          (if c \<in> set ALWAYS_SAFE \<or> c \<in> set '' '' then [c]
           else [CHR ''%'', hex_upper (of_char c div 16), hex_upper (of_char c)]) = enc c" for c
    using safe_not_special [of c] hex_upper_safe safe_not_special
    by (auto simp: enc_def)
  then have "map (\<lambda>c. if c = CHR '' '' then CHR ''+'' else c) (quote s '' '') = concat (map enc s)"
    unfolding quote_def by (simp add: map_concat comp_def)
  with True show ?thesis by (simp add: quote_plus_def)
qed

lemma enc_space_no_percent:
  "CHR ''%'' \<notin> set (enc_space c) \<Longrightarrow> enc_space c = [c]"
  by (auto simp: enc_space_def split: if_splits)

lemma no_percent_identity:
  "CHR ''%'' \<notin> set (concat (map enc_space s)) \<Longrightarrow> concat (map enc_space s) = s"
proof (induction s)
  case Nil
  show ?case by simp
next
  case (Cons c s)
  from Cons.prems have c: "CHR ''%'' \<notin> set (enc_space c)"
    and s: "CHR ''%'' \<notin> set (concat (map enc_space s))"
    by simp_all
  have a: "enc_space c = [c]" using c by (rule enc_space_no_percent)
  have b: "concat (map enc_space s) = s" using s by (rule Cons.IH)
  show ?case by (simp add: a b)
qed

lemma unquote_plus_quote_plus:
  assumes "decode_replace s = s"
  shows "unquote_plus (quote_plus s) = s"
proof -
  have m: "map (\<lambda>c. if c = CHR ''+'' then CHR '' '' else c) (quote_plus s)
             = concat (map enc_space s)"
    by (simp add: quote_plus_enc map_concat comp_def plus_to_space_enc)
  show ?thesis
    unfolding unquote_plus_def m unquote_def
    using assms by (simp add: unquote_to_bytes_quoted no_percent_identity)
qed

text \<open>\<open>unquote_plus\<close> of ASCII text is a fixed point of the decoder.\<close>

lemma unquote_plus_wf:
  assumes "ascii x"
  shows "decode_replace (unquote_plus x) = unquote_plus x"
proof -
  have a: "ascii (map (\<lambda>c. if c = CHR ''+'' then CHR '' '' else c) x)"
    using assms by (auto simp: ascii_def list_all_iff)
  show ?thesis
    unfolding unquote_plus_def unquote_def
    using a by (simp add: decode_replace_idem decode_replace_ascii)
qed

text \<open>What \<open>quote_plus\<close> writes.\<close>

lemma enc_chars: "set (enc c) \<subseteq> set (ALWAYS_SAFE @ ''+%'')"
  using hex_upper_safe by (auto simp: enc_def)

lemma quote_plus_chars: "set (quote_plus s) \<subseteq> set (ALWAYS_SAFE @ ''+%'')"
  unfolding quote_plus_enc using enc_chars by auto

subsection \<open>The dictionary of \<open>parse_qs\<close>\<close>

lemma parse_qs_fold: "parse_qs qs = foldl dict_step [] (parse_qsl qs)"
  by (simp add: parse_qs_def dict_step_def)

lemma dict_append_keys:
  "map fst (dict_append d k v) = (if k \<in> fst ` set d then map fst d else map fst d @ [k])"
  by (induction d) (auto simp: rev_image_eqI)

lemma dict_append_ok: "dict_ok d \<Longrightarrow> dict_ok (dict_append d k v)"
proof -
  have "list_all (\<lambda>(k, vs). vs \<noteq> []) d \<Longrightarrow> list_all (\<lambda>(k, vs). vs \<noteq> []) (dict_append d k v)"
    by (induction d) auto
  moreover have "distinct (map fst d) \<Longrightarrow> distinct (map fst (dict_append d k v))"
    by (simp add: dict_append_keys)
  ultimately show "dict_ok d \<Longrightarrow> dict_ok (dict_append d k v)"
    by (simp add: dict_ok_def)
qed

lemma dict_append_text_ok:
  "dict_text_ok d \<Longrightarrow> text_ok k \<Longrightarrow> text_ok v \<Longrightarrow> dict_text_ok (dict_append d k v)"
  unfolding dict_text_ok_def by (induction d) auto

lemma foldl_dict_step_ok:
  "dict_ok acc \<Longrightarrow> dict_ok (foldl dict_step acc kvs)"
  by (induction kvs arbitrary: acc) (auto simp: dict_step_def dict_append_ok)

lemma foldl_dict_step_text_ok:
  "dict_text_ok acc \<Longrightarrow> list_all (\<lambda>(k, v). text_ok k \<and> text_ok v) kvs
     \<Longrightarrow> dict_text_ok (foldl dict_step acc kvs)"
  by (induction kvs arbitrary: acc) (auto simp: dict_step_def dict_append_text_ok)

lemma parse_qs_ok: "dict_ok (parse_qs qs)"
  unfolding parse_qs_fold by (rule foldl_dict_step_ok) (simp add: dict_ok_def)

lemma dict_append_new:
  "k \<notin> fst ` set acc \<Longrightarrow> dict_append acc k v = acc @ [(k, [v])]"
  by (induction acc) auto

lemma dict_append_last:
  "k \<notin> fst ` set acc \<Longrightarrow> dict_append (acc @ [(k, ws)]) k v = acc @ [(k, ws @ [v])]"
  by (induction acc) auto

lemma foldl_same_key:
  "k \<notin> fst ` set acc \<Longrightarrow>
     foldl dict_step (acc @ [(k, ws)]) (map (Pair k) vs) = acc @ [(k, ws @ vs)]"
proof (induction vs arbitrary: ws)
  case Nil
  show ?case by simp
next
  case (Cons v vs)
  show ?case
    using Cons.IH [OF Cons.prems, of "ws @ [v]"]
    by (simp add: dict_step_def dict_append_last [OF Cons.prems])
qed

lemma foldl_new_key:
  assumes "k \<notin> fst ` set acc" and "vs \<noteq> []"
  shows "foldl dict_step acc (map (Pair k) vs) = acc @ [(k, vs)]"
proof -
  obtain v vs' where vs: "vs = v # vs'" using assms(2) by (cases vs) auto
  show ?thesis
    using foldl_same_key [OF assms(1), of "[v]" vs']
    by (simp add: vs dict_step_def dict_append_new [OF assms(1)])
qed

lemma foldl_flat:
  "dict_ok d \<Longrightarrow> fst ` set acc \<inter> fst ` set d = {} \<Longrightarrow>
     foldl dict_step acc (flat d) = acc @ d"
proof (induction d arbitrary: acc)
  case Nil
  show ?case by (simp add: flat_def)
next
  case (Cons kv d)
  obtain k vs where kv: "kv = (k, vs)" by (cases kv)
  from Cons.prems have k: "k \<notin> fst ` set acc" and vs: "vs \<noteq> []"
    and d: "dict_ok d" and kd: "k \<notin> fst ` set d"
    and disj: "fst ` set acc \<inter> fst ` set d = {}"
    by (auto simp: kv dict_ok_def)
  have "fst ` set (acc @ [(k, vs)]) \<inter> fst ` set d = {}"
    using disj kd by auto
  from Cons.IH [OF d this] show ?case
    by (simp add: kv flat_def foldl_new_key [OF k vs])
qed

subsection \<open>\<open>split\<close> and \<open>join\<close>\<close>

lemma split_no_sep: "sep \<notin> set s \<Longrightarrow> split sep s = [s]"
  by (induction s) auto

lemma split_append_sep:
  "sep \<notin> set p \<Longrightarrow> split sep (p @ sep # s) = p # split sep s"
  by (induction p) auto

lemma split_join:
  "ps \<noteq> [] \<Longrightarrow> list_all (\<lambda>p. sep \<notin> set p) ps \<Longrightarrow> split sep (join [sep] ps) = ps"
proof (induction ps)
  case Nil
  then show ?case by simp
next
  case (Cons p ps)
  show ?case
  proof (cases ps)
    case Nil
    with Cons.prems show ?thesis by (simp add: split_no_sep)
  next
    case (Cons q qs)
    with Cons.IH Cons.prems have "split sep (join [sep] (q # qs)) = q # qs" by simp
    with Cons Cons.prems show ?thesis by (simp add: split_append_sep)
  qed
qed

lemma split_chars: "\<Union> (set ` set (split sep s)) \<subseteq> set s"
proof (induction s)
  case Nil
  show ?case by simp
next
  case (Cons c cs)
  then show ?case
    using split_nonempty [of sep cs]
    by (cases "split sep cs") auto
qed

lemma split_parts: "w \<in> set (split sep s) \<Longrightarrow> set w \<subseteq> set s"
  using split_chars [of sep s] by blast

lemma join_chars:
  "set (join sep ps) \<subseteq> set sep \<union> \<Union> (set ` set ps)"
  by (induction sep ps rule: join.induct) auto

lemma join_last:
  "ps \<noteq> [] \<Longrightarrow> last ps \<noteq> [] \<Longrightarrow> join sep ps \<noteq> [] \<and> last (join sep ps) = last (last ps)"
  by (induction sep ps rule: join.induct) auto

subsection \<open>\<open>urlencode\<close> and back\<close>

lemma urlencode_pieces: "urlencode d = join ''&'' (pieces d)"
  by (simp add: urlencode_def pieces_def)

lemma quote_plus_no_delim:
  "CHR ''='' \<notin> set (quote_plus s)" "CHR ''&'' \<notin> set (quote_plus s)"
  using quote_plus_chars [of s] safe_not_special [of "CHR ''=''"] safe_not_special [of "CHR ''&''"]
  by auto

lemma piece_props:
  assumes "p \<in> set (pieces d)"
  shows "p \<noteq> []" and "CHR ''&'' \<notin> set p" and "set p \<subseteq> set query_chars"
    and "last p \<noteq> CHR ''/''"
proof -
  from assms obtain k v where p: "p = quote_plus k @ ''='' @ quote_plus v"
    by (auto simp: pieces_def)
  show "p \<noteq> []" by (simp add: p)
  show "CHR ''&'' \<notin> set p" by (simp add: p quote_plus_no_delim)
  show "set p \<subseteq> set query_chars"
    using quote_plus_chars [of k] quote_plus_chars [of v] by (auto simp: p query_chars_def)
  have "last p \<in> set (''='' @ quote_plus v)" 
    unfolding p by (metis append_is_Nil_conv last_appendR last_in_set list.distinct(1))
  then show "last p \<noteq> CHR ''/''"
    using quote_plus_chars [of v] safe_not_special [of "CHR ''/''"] by auto
qed

lemma query_chars_plain:
  assumes "c \<in> set query_chars"
  shows "c \<noteq> CHR ''#'' \<and> c \<noteq> CHR ''/'' \<and> c \<noteq> CHR ''?'' \<and> c \<notin> set UNSAFE_URL_BYTES_TO_REMOVE"
proof -
  from assms consider "c \<in> set ALWAYS_SAFE" | "c \<in> set ''+%=&''"
    unfolding query_chars_def by auto
  then show ?thesis
  proof cases
    case 1
    then show ?thesis using safe_not_special [of c] by blast
  next
    case 2
    then show ?thesis by (auto simp: UNSAFE_URL_BYTES_TO_REMOVE_def)
  qed
qed

lemma pieces_nonempty:
  "dict_ok d \<Longrightarrow> d \<noteq> [] \<Longrightarrow> pieces d \<noteq> []"
  by (cases d) (auto simp: dict_ok_def pieces_def)

lemma urlencode_props:
  assumes "dict_ok d" and "d \<noteq> []"
  shows "urlencode d \<noteq> []" and "set (urlencode d) \<subseteq> set query_chars"
    and "last (urlencode d) \<noteq> CHR ''/''"
proof -
  have ne: "pieces d \<noteq> []" using assms by (rule pieces_nonempty)
  then have l: "last (pieces d) \<in> set (pieces d)" by simp
  from join_last [OF ne piece_props(1) [OF l], of "''&''"]
  show "urlencode d \<noteq> []" and "last (urlencode d) \<noteq> CHR ''/''"
    using piece_props(4) [OF l] by (simp_all add: urlencode_pieces)
  have "set (join ''&'' (pieces d)) \<subseteq> set ''&'' \<union> \<Union> (set ` set (pieces d))"
    by (rule join_chars)
  moreover have "\<Union> (set ` set (pieces d)) \<subseteq> set query_chars"
    using piece_props(3) by blast
  moreover have "set ''&'' \<subseteq> set query_chars"
    by (simp add: query_chars_def)
  ultimately show "set (urlencode d) \<subseteq> set query_chars"
    unfolding urlencode_pieces by blast
qed

lemma partition_at_sep:
  "sep \<notin> set a \<Longrightarrow> partition_at sep (a @ sep # b) = (a, True, b)"
  by (induction a) (auto simp: partition_at_def)

lemma partition_at_piece:
  "partition_at (CHR ''='') (quote_plus k @ ''='' @ quote_plus v)
     = (quote_plus k, True, quote_plus v)"
  using partition_at_sep [OF quote_plus_no_delim(1), of k "quote_plus v"] by simp

lemma parse_pieces:
  assumes "dict_text_ok d"
  shows "map (\<lambda>name_value. case partition_at (CHR ''='') name_value of
              (name, _, val) \<Rightarrow> (unquote_plus name, unquote_plus val)) (pieces d) = flat d"
  using assms
proof (induction d)
  case Nil
  show ?case by (simp add: pieces_def flat_def)
next
  case (Cons kv d)
  obtain k vs where kv: "kv = (k, vs)" by (cases kv)
  from Cons.prems have k: "text_ok k" and vs: "list_all text_ok vs" and d: "dict_text_ok d"
    by (simp_all add: kv dict_text_ok_def)
  have "map (\<lambda>name_value. case partition_at (CHR ''='') name_value of
              (name, _, val) \<Rightarrow> (unquote_plus name, unquote_plus val))
          (map (\<lambda>elt. quote_plus k @ ''='' @ quote_plus elt) vs) = map (Pair k) vs"
    using k vs
    by (auto simp: partition_at_piece unquote_plus_quote_plus text_ok_def list_all_iff
          simp del: append.simps)
  with Cons.IH [OF d] show ?case
    by (simp add: kv pieces_def flat_def)
qed

lemma parse_qsl_urlencode:
  assumes "dict_text_ok d"
  shows "parse_qsl (urlencode d) = flat d"
proof (cases "pieces d = []")
  case True
  with parse_pieces [OF assms] have "flat d = []" by simp
  with True show ?thesis by (simp add: parse_qsl_def urlencode_pieces)
next
  case False
  have "list_all (\<lambda>p. CHR ''&'' \<notin> set p) (pieces d)"
    using piece_props(2) by (simp add: list_all_iff)
  with False have s: "split (CHR ''&'') (urlencode d) = pieces d"
    unfolding urlencode_pieces using split_join [of "pieces d" "CHR ''&''"] by simp
  have f: "filter (\<lambda>name_value. name_value \<noteq> []) (pieces d) = pieces d"
    using piece_props(1) by (simp add: filter_id_conv)
  have l: "last (pieces d) \<in> set (pieces d)" using False by simp
  have ne: "urlencode d \<noteq> []"
    unfolding urlencode_pieces
    using join_last [OF False piece_props(1) [OF l], of "''&''"] by simp
  show ?thesis
    unfolding parse_qsl_def by (simp add: ne s f parse_pieces [OF assms])
qed

lemma parse_qs_urlencode:
  assumes "dict_ok d" and "dict_text_ok d"
  shows "parse_qs (urlencode d) = d"
  using foldl_flat [OF assms(1), of "[]"]
  by (simp add: parse_qs_fold parse_qsl_urlencode [OF assms(2)])

subsection \<open>The dictionary of an ASCII query\<close>

lemma ascii_subset: "ascii s \<Longrightarrow> set t \<subseteq> set s \<Longrightarrow> ascii t"
  by (auto simp: ascii_def list_all_iff)

lemma unquote_plus_text_ok: "ascii x \<Longrightarrow> text_ok (unquote_plus x)"
  by (simp add: text_ok_def unquote_plus_wf)

lemma parse_qsl_text_ok:
  assumes "ascii qs"
  shows "list_all (\<lambda>(k, v). text_ok k \<and> text_ok v) (parse_qsl qs)"
proof -
  have "text_ok (unquote_plus (takeWhile (\<lambda>c. c \<noteq> CHR ''='') w))
      \<and> text_ok (unquote_plus (drop 1 (dropWhile (\<lambda>c. c \<noteq> CHR ''='') w)))"
    if "w \<in> set (split (CHR ''&'') qs)" for w
  proof -
    have w: "ascii w" using assms split_parts [OF that] by (rule ascii_subset)
    have "set (takeWhile (\<lambda>c. c \<noteq> CHR ''='') w) \<subseteq> set w"
      by (auto dest: set_takeWhileD)
    moreover have "set (drop 1 (dropWhile (\<lambda>c. c \<noteq> CHR ''='') w)) \<subseteq> set w"
      by (auto dest: in_set_dropD set_dropWhileD)
    ultimately show ?thesis
      using w by (blast intro: unquote_plus_text_ok ascii_subset)
  qed
  then show ?thesis
    by (auto simp: parse_qsl_def list_all_iff partition_at_def)
qed

lemma parse_qs_text_ok: "ascii qs \<Longrightarrow> dict_text_ok (parse_qs qs)"
  unfolding parse_qs_fold
  by (rule foldl_dict_step_text_ok) (simp_all add: dict_text_ok_def parse_qsl_text_ok)

lemma filter_dict_ok: "dict_ok d \<Longrightarrow> dict_ok (filter f d)"
  by (auto simp: dict_ok_def list_all_iff distinct_map_filter)

lemma filter_dict_text_ok: "dict_text_ok d \<Longrightarrow> dict_text_ok (filter f d)"
  by (auto simp: dict_text_ok_def list_all_iff)

subsection \<open>What \<open>urlparse\<close> returns\<close>

lemma whatwg_small:
  "c \<in> set WHATWG_C0_CONTROL_OR_SPACE \<Longrightarrow> (of_char c :: nat) < 33"
  by (auto simp: WHATWG_C0_CONTROL_OR_SPACE_def)

lemma lowercase_props:
  assumes "c \<in> set ascii_lowercase"
  shows "c \<notin> set WHATWG_C0_CONTROL_OR_SPACE" and "c \<in> set lower_scheme_chars"
    and "c \<in> set (ascii_lowercase @ ascii_uppercase)"
proof -
  have "97 \<le> (of_char c :: nat)" using assms by (auto simp: ascii_lowercase_def)
  then show "c \<notin> set WHATWG_C0_CONTROL_OR_SPACE" using whatwg_small [of c] by auto
  show "c \<in> set lower_scheme_chars" using assms by (simp add: lower_scheme_chars_def)
  show "c \<in> set (ascii_lowercase @ ascii_uppercase)" using assms by simp
qed

lemma lower_char_upper:
  assumes "c \<in> set ascii_uppercase"
  shows "lower_char c \<in> set ascii_lowercase"
proof -
  have "list_all (\<lambda>c. lower_char c \<in> set ascii_lowercase) ascii_uppercase"
    by code_simp
  with assms show ?thesis by (simp add: list_all_iff)
qed

lemma lower_char_letter:
  "c \<in> set (ascii_lowercase @ ascii_uppercase) \<Longrightarrow> lower_char c \<in> set ascii_lowercase"
  using lower_char_upper [of c] by (auto simp: lower_char_def)

lemma lower_char_scheme:
  assumes "c \<in> set scheme_chars"
  shows "lower_char c \<in> set lower_scheme_chars"
proof (cases "c \<in> set ascii_uppercase")
  case True
  then show ?thesis using lower_char_upper [of c] by (simp add: lower_scheme_chars_def)
next
  case False
  with assms show ?thesis
    by (auto simp: lower_char_def scheme_chars_def lower_scheme_chars_def)
qed

lemma lower_scheme_char_props:
  assumes "c \<in> set lower_scheme_chars"
  shows "c \<notin> set ascii_uppercase" and "c \<in> set scheme_chars" and "c \<noteq> CHR '':''"
    and "c \<notin> set UNSAFE_URL_BYTES_TO_REMOVE"
proof -
  from assms consider "c \<in> set ascii_lowercase" | "c \<in> set digits" | "c \<in> set ''+-.''"
    by (auto simp: lower_scheme_chars_def)
  then have "c \<notin> set ascii_uppercase \<and> c \<noteq> CHR '':'' \<and> c \<notin> set UNSAFE_URL_BYTES_TO_REMOVE"
  proof cases
    case 1
    then show ?thesis
      by (auto simp: ascii_lowercase_def ascii_uppercase_def UNSAFE_URL_BYTES_TO_REMOVE_def)
  next
    case 2
    then show ?thesis
      by (auto simp: digits_def ascii_uppercase_def UNSAFE_URL_BYTES_TO_REMOVE_def)
  next
    case 3
    then show ?thesis
      by (auto simp: ascii_uppercase_def UNSAFE_URL_BYTES_TO_REMOVE_def)
  qed
  then show "c \<notin> set ascii_uppercase" and "c \<noteq> CHR '':''"
    and "c \<notin> set UNSAFE_URL_BYTES_TO_REMOVE" by simp_all
  show "c \<in> set scheme_chars"
    using assms by (auto simp: lower_scheme_chars_def scheme_chars_def)
qed

lemma scheme_ok_lower:
  assumes "scheme_ok S"
  shows "lower S = S"
proof -
  have "lower_char c = c" if "c \<in> set S" for c
    using that assms lower_scheme_char_props(1) [of c]
    by (auto simp: scheme_ok_def list_all_iff lower_char_def)
  then show ?thesis by (simp add: lower_def map_idI)
qed

lemma takeWhile_stop:
  "\<forall>c\<in>set a. f c \<Longrightarrow> \<not> f x \<Longrightarrow> takeWhile f (a @ x # b) = a"
  by (induction a) auto

lemma dropWhile_stop:
  "\<forall>c\<in>set a. f c \<Longrightarrow> \<not> f x \<Longrightarrow> dropWhile f (a @ x # b) = x # b"
  by (induction a) auto

lemma split_scheme_rebuilt:
  assumes "scheme_ok S"
  shows "split_scheme (S @ CHR '':'' # rest) = (S, rest)"
proof -
  have a: "\<forall>c\<in>set S. c \<noteq> CHR '':''"
    using assms lower_scheme_char_props(3) by (auto simp: scheme_ok_def list_all_iff)
  have t: "takeWhile (\<lambda>c. c \<noteq> CHR '':'') (S @ CHR '':'' # rest) = S"
    using a by (simp add: takeWhile_stop)
  have ne: "S \<noteq> []" using assms by (simp add: scheme_ok_def)
  have h: "hd (S @ CHR '':'' # rest) \<in> set (ascii_lowercase @ ascii_uppercase)"
    using assms ne by (simp add: scheme_ok_def)
  have l: "list_all (\<lambda>c. c \<in> set scheme_chars) S"
    using assms lower_scheme_char_props(2) by (auto simp: scheme_ok_def list_all_iff)
  show ?thesis
    unfolding split_scheme_def t Let_def
    using ne h l by (simp add: scheme_ok_lower [OF assms])
qed

lemma split_scheme_result:
  assumes "split_scheme url = (S, url1)"
  shows "(S = [] \<or> scheme_ok S) \<and> set url1 \<subseteq> set url"
proof (cases "S = []")
  case True
  with assms show ?thesis
    by (auto simp: split_scheme_def Let_def split: if_splits dest: in_set_dropD)
next
  case False
  define i where "i = length (takeWhile (\<lambda>c. c \<noteq> CHR '':'') url)"
  from assms False have c: "0 < i" "hd url \<in> set (ascii_lowercase @ ascii_uppercase)"
    "list_all (\<lambda>c. c \<in> set scheme_chars) (take i url)"
    and S: "S = lower (take i url)" and u: "url1 = drop (Suc i) url"
    by (auto simp: split_scheme_def Let_def i_def split: if_splits)
  have ne: "take i url \<noteq> []" using False S by (auto simp: lower_def)
  then have "hd S = lower_char (hd url)"
    by (simp add: S lower_def hd_map)
  then have "hd S \<in> set ascii_lowercase" using c(2) lower_char_letter by simp
  moreover have "list_all (\<lambda>c. c \<in> set lower_scheme_chars) S"
    using c(3) lower_char_scheme by (auto simp: S lower_def list_all_iff)
  ultimately have "scheme_ok S" using False by (simp add: scheme_ok_def)
  moreover have "set url1 \<subseteq> set url" by (auto simp: u dest: in_set_dropD)
  ultimately show ?thesis by simp
qed

lemma url_text_subset: "url_text s \<Longrightarrow> set t \<subseteq> set s \<Longrightarrow> url_text t"
  by (auto simp: url_text_def list_all_iff)

lemma path_ok_prefix:
  assumes "path_ok s" and "prefix t s"
  shows "path_ok t"
proof -
  from assms(2) obtain r where s: "s = t @ r" by (auto simp: prefix_def)
  show ?thesis
    using assms(1) by (cases t) (auto simp: s path_ok_def url_text_def)
qed

lemma takeWhile_no_sep: "sep \<notin> set s \<Longrightarrow> takeWhile (\<lambda>c. c \<noteq> sep) s = s"
  by (induction s) auto

lemma splitparams_prefix: "prefix (fst (splitparams x)) x"
  by (auto simp: splitparams_def Let_def take_is_prefix prefixeq_butlast)

lemma urlsplit_parts:
  assumes "urlsplit chk u = Inr (S, N, url4, Q, F)"
  shows "S = [] \<or> scheme_ok S"
    and "brackets_ok chk N"
    and "url_text N"
    and "list_all (\<lambda>c. c \<notin> set ''/?#'') N"
    and "N \<noteq> [] \<Longrightarrow> path_ok url4"
    and "set Q \<subseteq> set u"
proof -
  define url where
    "url = filter (\<lambda>c. c \<notin> set UNSAFE_URL_BYTES_TO_REMOVE) (lstrip WHATWG_C0_CONTROL_OR_SPACE u)"
  obtain S' url1 where ss: "split_scheme url = (S', url1)"
    by (cases "split_scheme url")
  define N' where
    "N' = (if take 2 url1 = ''//'' then takeWhile (\<lambda>c. c \<notin> set ''/?#'') (drop 2 url1) else [])"
  define url2 where
    "url2 = (if take 2 url1 = ''//'' then dropWhile (\<lambda>c. c \<notin> set ''/?#'') (drop 2 url1) else url1)"
  define url3 where "url3 = takeWhile (\<lambda>c. c \<noteq> CHR ''#'') url2"
  define F' where
    "F' = (if CHR ''#'' \<in> set url2 then drop 1 (dropWhile (\<lambda>c. c \<noteq> CHR ''#'') url2) else [])"
  define url4' where "url4' = takeWhile (\<lambda>c. c \<noteq> CHR ''?'') url3"
  define Q' where
    "Q' = (if CHR ''?'' \<in> set url3 then drop 1 (dropWhile (\<lambda>c. c \<noteq> CHR ''?'') url3) else [])"
  have nl: "(if take 2 url1 = ''//'' then splitnetloc url1 else ([], url1)) = (N', url2)"
    by (simp add: splitnetloc_def N'_def url2_def)
  have fr: "(if CHR ''#'' \<in> set url2
             then (case partition_at (CHR ''#'') url2 of (a, _, b) \<Rightarrow> (a, b))
             else (url2, [])) = (url3, F')"
    by (simp add: partition_at_def url3_def F'_def takeWhile_no_sep)
  have qr: "(if CHR ''?'' \<in> set url3
             then (case partition_at (CHR ''?'') url3 of (a, _, b) \<Rightarrow> (a, b))
             else (url3, [])) = (url4', Q')"
    by (simp add: partition_at_def url4'_def Q'_def takeWhile_no_sep)
  have "urlsplit chk u
          = (if brackets_ok chk N' then Inr (S', N', url4', Q', F') else Inl ValueError)"
    unfolding urlsplit_def Let_def url_def [symmetric] ss prod.case nl fr qr
    by (simp add: brackets_ok_def)
  with assms have b: "brackets_ok chk N'" and eqs: "S = S'" "N = N'" "url4 = url4'" "Q = Q'"
    by (simp_all split: if_splits)
  have u1: "set url1 \<subseteq> set url" and S': "S' = [] \<or> scheme_ok S'"
    using split_scheme_result [OF ss] by simp_all
  have t: "url_text url" by (simp add: url_text_def url_def list_all_iff)
  have uu: "set url \<subseteq> set u"
    by (auto simp: url_def lstrip_def dest: set_dropWhileD)
  have n1: "set N' \<subseteq> set url1"
    by (auto simp: N'_def dest: set_takeWhileD in_set_dropD)
  have u2: "set url2 \<subseteq> set url1"
    by (auto simp: url2_def dest: set_dropWhileD in_set_dropD)
  have u3: "set url3 \<subseteq> set url2" by (auto simp: url3_def dest: set_takeWhileD)
  have u4: "set url4' \<subseteq> set url3" by (auto simp: url4'_def dest: set_takeWhileD)
  have q: "set Q' \<subseteq> set url3"
    by (auto simp: Q'_def dest: set_dropWhileD in_set_dropD)
  show "S = [] \<or> scheme_ok S" using S' eqs by simp
  show "brackets_ok chk N" using b eqs by simp
  show "url_text N" using t n1 u1 eqs by (blast intro: url_text_subset)
  show "list_all (\<lambda>c. c \<notin> set ''/?#'') N"
    unfolding eqs N'_def list_all_iff by (auto dest: set_takeWhileD)
  show "set Q \<subseteq> set u" using q u3 u2 u1 uu eqs by blast
  show "path_ok url4" if "N \<noteq> []"
  proof -
    from that have s: "take 2 url1 = ''//''" unfolding eqs N'_def by (auto split: if_splits)
    have h: "url2 = [] \<or> hd url2 \<in> set ''/?#''"
      unfolding url2_def using s hd_dropWhile [of "\<lambda>c. c \<notin> set ''/?#''" "drop 2 url1"]
      by auto
    have "url4' = [] \<or> hd url4' = CHR ''/''"
      using h by (cases url2) (auto simp: url4'_def url3_def)
    moreover have "url_text url4'" using t u4 u3 u2 u1 by (blast intro: url_text_subset)
    moreover have "CHR ''?'' \<notin> set url4'" unfolding url4'_def by (auto dest: set_takeWhileD)
    moreover have "CHR ''#'' \<notin> set url3" unfolding url3_def by (auto dest: set_takeWhileD)
    ultimately show ?thesis using u4 unfolding path_ok_def eqs by blast
  qed
qed

lemma urlparse_parts:
  assumes "urlparse chk u = Inr p"
  shows "p_scheme p = [] \<or> scheme_ok (p_scheme p)"
    and "p_netloc p \<noteq> [] \<Longrightarrow> authority_ok chk (p_netloc p)"
    and "p_netloc p \<noteq> [] \<Longrightarrow> path_ok (p_path p)"
    and "set (p_query p) \<subseteq> set u"
proof -
  from assms obtain S N url4 Q F where us: "urlsplit chk u = Inr (S, N, url4, Q, F)"
    by (auto simp: urlparse_def split: sum.splits)
  define P where
    "P = (if S \<in> set uses_params \<and> CHR '';'' \<in> set url4 then fst (splitparams url4) else url4)"
  have pp: "prefix P url4" by (simp add: P_def splitparams_prefix)
  from assms have p: "p_scheme p = S" "p_netloc p = N" "p_path p = P" "p_query p = Q"
    by (auto simp: urlparse_def us P_def Let_def split: prod.splits if_splits)
  note parts = urlsplit_parts [OF us]
  show "p_scheme p = [] \<or> scheme_ok (p_scheme p)" using parts(1) by (simp add: p)
  show "authority_ok chk (p_netloc p)" if "p_netloc p \<noteq> []"
    using that parts(2,3,4) by (simp add: p authority_ok_def)
  show "path_ok (p_path p)" if "p_netloc p \<noteq> []"
    using that parts(5) pp by (auto simp: p intro: path_ok_prefix)
  show "set (p_query p) \<subseteq> set u" using parts(6) by (simp add: p)
qed

subsection \<open>Parsing a rebuilt URL\<close>

lemma takeWhile_dropWhile_stop:
  assumes "\<forall>c\<in>set a. f c" and "b = [] \<or> \<not> f (hd b)"
  shows "takeWhile f (a @ b) = a" and "dropWhile f (a @ b) = b"
  using assms by (cases b; simp add: takeWhile_stop dropWhile_stop)+

lemma url_text_append: "url_text (a @ b) \<longleftrightarrow> url_text a \<and> url_text b"
  by (simp add: url_text_def)

lemma url_text_Cons:
  "url_text (c # s) \<longleftrightarrow> c \<notin> set UNSAFE_URL_BYTES_TO_REMOVE \<and> url_text s"
  by (simp add: url_text_def)

lemma urlsplit_rebuilt:
  assumes S: "scheme_ok S" and N: "authority_ok chk N" and P: "path_ok P"
    and E: "set E \<subseteq> set query_chars"
  shows "urlsplit chk (S @ ''://'' @ N @ P @ (if E = [] then [] else CHR ''?'' # E))
           = Inr (S, N, P, E, [])"
proof -
  define T where "T = (if E = [] then [] else CHR ''?'' # E)"
  define url1 where "url1 = ''//'' @ N @ P @ T"
  define v where "v = S @ CHR '':'' # url1"
  have v: "S @ ''://'' @ N @ P @ (if E = [] then [] else CHR ''?'' # E) = v"
    by (simp add: v_def url1_def T_def)
  have Sne: "S \<noteq> []" and Shd: "hd S \<in> set ascii_lowercase"
    and Sall: "\<forall>c\<in>set S. c \<in> set lower_scheme_chars"
    using S by (simp_all add: scheme_ok_def list_all_iff)
  have tT: "url_text T"
    using E query_chars_plain
    by (auto simp: T_def url_text_def list_all_iff UNSAFE_URL_BYTES_TO_REMOVE_def)
  have tS: "url_text S"
    using Sall lower_scheme_char_props(4) by (auto simp: url_text_def list_all_iff)
  have tN: "url_text N" using N by (simp add: authority_ok_def)
  have tP: "url_text P" using P by (simp add: path_ok_def)
  have d: "CHR '':'' \<notin> set UNSAFE_URL_BYTES_TO_REMOVE" "CHR ''/'' \<notin> set UNSAFE_URL_BYTES_TO_REMOVE"
    by (simp_all add: UNSAFE_URL_BYTES_TO_REMOVE_def)
  have tv: "url_text v"
    unfolding v_def url1_def
    by (simp add: url_text_append url_text_Cons tS tT tN tP d)
  have "hd v \<notin> set WHATWG_C0_CONTROL_OR_SPACE"
    using Sne Shd lowercase_props(1) by (simp add: v_def)
  then have ls: "lstrip WHATWG_C0_CONTROL_OR_SPACE v = v"
    by (simp add: lstrip_def dropWhile_eq_self_iff)
  have fl: "filter (\<lambda>c. c \<notin> set UNSAFE_URL_BYTES_TO_REMOVE) v = v"
    using tv by (simp add: url_text_def list_all_iff filter_id_conv)
  have ss: "split_scheme v = (S, url1)"
    unfolding v_def using S by (rule split_scheme_rebuilt)
  have Tfacts: "CHR ''#'' \<notin> set T" "T = [] \<or> hd T = CHR ''?''"
    using E query_chars_plain by (auto simp: T_def)
  have PT: "P @ T = [] \<or> \<not> hd (P @ T) \<notin> set ''/?#''"
    using P Tfacts(2) by (cases P) (auto simp: path_ok_def)
  have Nall: "\<forall>c\<in>set N. c \<notin> set ''/?#''"
    using N by (simp add: authority_ok_def list_all_iff)
  have nl: "(if take 2 url1 = ''//'' then splitnetloc url1 else ([], url1)) = (N, P @ T)"
    using takeWhile_dropWhile_stop [OF Nall PT]
    by (simp add: url1_def splitnetloc_def)
  have "CHR ''#'' \<notin> set (P @ T)" using P Tfacts(1) by (simp add: path_ok_def)
  then have fr: "(if CHR ''#'' \<in> set (P @ T)
             then (case partition_at (CHR ''#'') (P @ T) of (a, _, b) \<Rightarrow> (a, b))
             else (P @ T, [])) = (P @ T, [])"
    by simp
  have Pq: "CHR ''?'' \<notin> set P" using P by (simp add: path_ok_def)
  have qr: "(if CHR ''?'' \<in> set (P @ T)
             then (case partition_at (CHR ''?'') (P @ T) of (a, _, b) \<Rightarrow> (a, b))
             else (P @ T, [])) = (P, E)"
    using Pq by (simp add: T_def partition_at_sep)
  have b: "brackets_ok chk N" using N by (simp add: authority_ok_def)
  have "urlsplit chk v = Inr (S, N, P, E, [])"
    unfolding urlsplit_def Let_def ls fl ss prod.case nl fr qr
    using b by (simp add: brackets_ok_def)
  then show ?thesis by (simp only: v)
qed

lemma urlparse_rebuilt:
  assumes "scheme_ok S" and "authority_ok chk N" and "path_ok P"
    and "set E \<subseteq> set query_chars" and "CHR '';'' \<notin> set P"
  shows "urlparse chk (S @ ''://'' @ N @ P @ (if E = [] then [] else CHR ''?'' # E))
           = Inr \<lparr>p_scheme = S, p_netloc = N, p_path = P, p_params = [],
                   p_query = E, p_fragment = []\<rparr>"
  unfolding urlparse_def urlsplit_rebuilt [OF assms(1-4)]
  using assms(5) by simp

subsection \<open>The trailing slash\<close>

lemma endswith_slash: "endswith s ''/'' \<longleftrightarrow> s \<noteq> [] \<and> last s = CHR ''/''"
  by (cases s rule: rev_cases) (auto simp: endswith_def suffix_def)

lemma rstrip_keep:
  assumes "a \<noteq> []" and "last a \<notin> set chars"
  shows "rstrip chars (a @ b) = a @ rstrip chars b"
proof -
  have "hd (rev a) \<notin> set chars" using assms by (simp add: hd_rev)
  then have "dropWhile (\<lambda>c. c \<in> set chars) (rev a) = rev a"
    by (simp add: dropWhile_eq_self_iff)
  then show ?thesis
    by (auto simp: rstrip_def dropWhile_append)
qed

lemma rstrip_prefix: "prefix (rstrip chars s) s"
proof -
  have "s = rev (dropWhile (\<lambda>c. c \<in> set chars) (rev s))
              @ rev (takeWhile (\<lambda>c. c \<in> set chars) (rev s))"
    by (metis rev_append rev_rev_ident takeWhile_dropWhile_id)
  then show ?thesis unfolding rstrip_def by (metis prefixI)
qed

lemma rstrip_last: "rstrip chars s = [] \<or> last (rstrip chars s) \<notin> set chars"
  using hd_dropWhile [of "\<lambda>c. c \<in> set chars" "rev s"]
  by (auto simp: rstrip_def last_rev)

lemma clean_url_of_parse:
  assumes "urlparse chk x = Inr q"
  shows "clean_url chk self x =
     Inr (let d = filter (\<lambda>(k, v). k \<notin> set (tracking_params self)) (parse_qs (p_query q));
              c = p_scheme q @ ''://'' @ p_netloc q @ p_path q
                    @ (if p_query q \<noteq> [] \<and> d \<noteq> [] then CHR ''?'' # urlencode d else [])
          in if endswith c ''/'' \<and> 1 < length (p_path q) then rstrip ''/'' c else c)"
  by (simp add: clean_url_def assms Let_def)

section \<open>The walk: the claims\<close>

lemma demo_start5_eq: "discover_start any_host demo_sitemap (demo_self 5) = Inr (demo_start 5)"
  by code_simp

lemma demo_start10_eq: "discover_start any_host demo_sitemap (demo_self 10) = Inr (demo_start 10)"
  by code_simp

lemma demo_walk5_eq: "walk_iterate any_host demo_links 2 (demo_start 5) = Inr (demo_walk 5 2)"
  by code_simp

lemma demo_walk10_1_eq: "walk_iterate any_host demo_links 1 (demo_start 10) = Inr (demo_walk 10 1)"
  by code_simp

lemma demo_walk10_4_eq: "walk_iterate any_host demo_links 4 (demo_start 10) = Inr (demo_walk 10 4)"
  by code_simp

text \<open>
  Claim C1, as stated: with a budget of \<open>max_urls\<close>, \<open>discovered_urls\<close> never holds
  more than \<open>max_urls\<close> entries, also right after the sitemap seeding. The seeding loop
  has no budget test: for the example site and a budget of 2 the start state of the
  walk already holds 3 URLs (the base URL and two sitemap locations).
\<close>

theorem sitemap_seeding_exceeds_budget:
  "discover_start any_host demo_sitemap (demo_self 2) = Inr (demo_start 2)
   \<and> max_urls (crawler (demo_start 2)) = 2
   \<and> length (discovered_urls (crawler (demo_start 2))) = 3"
  by code_simp

text \<open>
  Claim C1, amended: after every pass of the \<open>while\<close> loop of the breadth-first walk
  the number of entries of \<open>discovered_urls\<close> is at most the larger of \<open>max_urls\<close>
  and the number of entries the seeding left: the walk adds nothing beyond the budget.
  The seeding itself (the base URL and every new sitemap URL) is not bounded by the
  budget.
\<close>

theorem budget_respected_by_walk:
  assumes "discover_start chk get self = Inr w0"
    and "walk_iterate chk extract_all_links n w0 = Inr w"
  shows "int (length (discovered_urls (crawler w)))
           \<le> max (max_urls self) (int (length (discovered_urls (crawler w0))))"
  using walk_iterate_budget [OF assms(2)] discover_start_effect [OF assms(1)] by simp

theorem budget_respected_by_walk_witness:
  "discover_start any_host demo_sitemap (demo_self 5) = Inr (demo_start 5)
   \<and> walk_iterate any_host demo_links 2 (demo_start 5) = Inr (demo_walk 5 2)
   \<and> keys (discovered_urls (crawler (demo_walk 5 2)))
       = [''https://example.com'', ''https://example.com/about'', ''https://example.com/blog'',
          ''https://example.com/team'', ''https://example.com/team/ada'']
   \<and> int (length (discovered_urls (crawler (demo_walk 5 2))))
         \<le> max (max_urls (demo_self 5)) (int (length (discovered_urls (crawler (demo_start 5)))))"
proof -
  have k: "keys (discovered_urls (crawler (demo_walk 5 2)))
       = [''https://example.com'', ''https://example.com/about'', ''https://example.com/blog'',
          ''https://example.com/team'', ''https://example.com/team/ada'']"
    by code_simp
  show ?thesis
    using budget_respected_by_walk [OF demo_start5_eq demo_walk5_eq] demo_start5_eq demo_walk5_eq k
    by simp
qed

text \<open>
  Claim C2, as stated: when the walk starts, the queue \<open>to_crawl\<close> holds the base URL
  at depth 0 and every sitemap-derived URL at depth 1. The sitemap URLs are written to
  \<open>discovered_urls\<close> and \<open>url_depths\<close> only: for the example site the loader returns
  two URLs and the queue holds the base URL alone.
\<close>

theorem sitemap_seed_missing_from_frontier:
  "discover_start any_host demo_sitemap (demo_self 5) = Inr (demo_start 5)
   \<and> parse_sitemap any_host demo_sitemap (demo_self 5)
       = [''https://example.com/about'', ''https://example.com/blog'']
   \<and> to_crawl (demo_start 5) = [(''https://example.com'', 0)]
   \<and> (''https://example.com/about'', 1) \<notin> set (to_crawl (demo_start 5))"
  by code_simp

text \<open>
  Claim C2, amended: when the walk starts, the queue holds exactly the base URL at depth
  0. Every URL the sitemap loader returns is what \<open>clean_url\<close> gives for the text of a
  location element (\<open>None\<close> when the element is empty), and no skip pattern matches
  it; it is recorded in \<open>discovered_urls\<close>, and in \<open>url_depths\<close> with depth 1 when
  it is new, but it is not put on the queue. As the walk enqueues only URLs that are not
  yet discovered, a sitemap URL other than the base URL is never on the queue and its
  links are never extracted.
\<close>

theorem sitemap_seeds_not_enqueued:
  assumes "discover_start chk get self = Inr w0"
    and "walk_iterate chk extract_all_links n w0 = Inr w"
  shows "to_crawl w0 = [(base_url self, 0)]
       \<and> set (parse_sitemap chk get self) \<subseteq> set (keys (discovered_urls (crawler w0)))
       \<and> (\<forall>u \<in> set (parse_sitemap chk get self).
             \<not> should_skip_url self u \<and> (\<exists>loc. clean_url_text chk self loc = Inr u)
             \<and> (u \<notin> set (keys (discovered_urls self)) \<and> u \<noteq> base_url self
                  \<longrightarrow> map_of (url_depths (crawler w0)) u = Some 1))
       \<and> (\<forall>(u, d) \<in> set (to_crawl w). u \<in> set (parse_sitemap chk get self) \<longrightarrow> u = base_url self)
       \<and> (\<forall>u \<in> set (fetched w). u \<in> set (parse_sitemap chk get self) \<longrightarrow> u = base_url self)"
proof -
  note e = discover_start_effect [OF assms(1)]
  have i0: "seeds_inv (set (parse_sitemap chk get self)) (base_url self) w0"
    using e by (auto simp: seeds_inv_def)
  have "seeds_inv (set (parse_sitemap chk get self)) (base_url self) w"
    by (rule walk_iterate_invariant [OF assms(2),
          where P = "seeds_inv (set (parse_sitemap chk get self)) (base_url self)"])
       (use i0 walk_step_seeds in blast)+
  with e parse_sitemap_ok [of chk get self] show ?thesis
    by (auto simp: seeds_inv_def seed_ok_def)
qed

theorem sitemap_seeds_not_enqueued_witness:
  "discover_start any_host demo_sitemap (demo_self 10) = Inr (demo_start 10)
   \<and> walk_iterate any_host demo_links 4 (demo_start 10) = Inr (demo_walk 10 4)
   \<and> parse_sitemap any_host demo_sitemap (demo_self 10)
       = [''https://example.com/about'', ''https://example.com/blog'']
   \<and> to_crawl (demo_start 10) = [(base_url (demo_self 10), 0)]
   \<and> fetched (demo_walk 10 4)
       = [''https://example.com'', ''https://example.com/team'', ''https://example.com/team/ada'']
   \<and> add_locs any_host (demo_self 10) [] [None, Some ''https://example.com/jobs/'']
       = ([none_url, ''https://example.com/jobs''], None)"
proof -
  have a: "add_locs any_host (demo_self 10) [] [None, Some ''https://example.com/jobs/'']
       = ([none_url, ''https://example.com/jobs''], None)"
    by code_simp
  have p: "parse_sitemap any_host demo_sitemap (demo_self 10)
       = [''https://example.com/about'', ''https://example.com/blog'']"
    by code_simp
  have f: "fetched (demo_walk 10 4)
       = [''https://example.com'', ''https://example.com/team'', ''https://example.com/team/ada'']"
    by code_simp
  show ?thesis
    using sitemap_seeds_not_enqueued [OF demo_start10_eq demo_walk10_4_eq]
      demo_start10_eq demo_walk10_4_eq p f a
    by simp
qed

text \<open>
  Claim C6: in every state the walk reaches, one more pass of the loop dequeues
  \<open>(current_url, current_depth)\<close> and appends to the queue only entries of depth
  \<open>current_depth + 1\<close>, and only when that depth is at most \<open>max_depth\<close>; the pages
  \<open>extract_all_links\<close> was called on are pairwise distinct and are exactly the set
  \<open>crawled\<close>; and dequeuing a URL that is already in \<open>crawled\<close> fetches nothing and
  enqueues nothing.
\<close>

theorem walk_depth_and_single_visit:
  assumes "discover_start chk get self = Inr w0"
    and "walk_iterate chk extract_all_links n w0 = Inr w"
    and "to_crawl w = (current_url, current_depth) # rest"
    and "walk_step chk extract_all_links w = Inr w'"
  shows "distinct (fetched w') \<and> set (fetched w') = crawled w'
       \<and> (if current_url \<in> crawled w then fetched w' = fetched w \<and> to_crawl w' = rest
          else fetched w' = fetched w \<or> fetched w' = fetched w @ [current_url])
       \<and> (\<exists>new. to_crawl w' = rest @ map (\<lambda>u. (u, current_depth + 1)) new
              \<and> (new \<noteq> [] \<longrightarrow> current_depth + 1 \<le> max_depth self))"
proof -
  have i: "walk_inv (base_url self) (max_depth self) w"
    by (rule walk_iterate_inv [OF assms(2) discover_start_inv [OF assms(1)]])
  have i': "walk_inv (base_url self) (max_depth self) w'"
    by (rule walk_step_inv [OF assms(4) i])
  from walk_step_effect [OF assms(4,3)]
  have "(if current_url \<in> crawled w then fetched w' = fetched w \<and> to_crawl w' = rest
          else fetched w' = fetched w \<or> fetched w' = fetched w @ [current_url])
       \<and> (\<exists>new. to_crawl w' = rest @ map (\<lambda>u. (u, current_depth + 1)) new
              \<and> (new \<noteq> [] \<longrightarrow> current_depth + 1 \<le> max_depth self))"
  proof
    assume "(current_url \<in> crawled w \<or> max_depth (crawler w) < current_depth)
              \<and> w' = w\<lparr>to_crawl := rest\<rparr>"
    then show ?thesis by (auto intro: exI [of _ "[]"])
  next
    assume h: "current_url \<notin> crawled w \<and> current_depth \<le> max_depth (crawler w)
         \<and> links_effect current_depth
             (w\<lparr>to_crawl := rest, crawled := insert current_url (crawled w),
                fetched := fetched w @ [current_url]\<rparr>) w'"
    then obtain new where e: "fetched w' = fetched w @ [current_url]"
      "to_crawl w' = rest @ (if current_depth + 1 \<le> max_depth (crawler w)
                             then map (\<lambda>u. (u, current_depth + 1)) new else [])"
      unfolding links_effect_def by auto
    have md: "max_depth (crawler w) = max_depth self" using i by (simp add: walk_inv_def)
    show ?thesis
    proof (cases "current_depth + 1 \<le> max_depth self")
      case True
      with e md h show ?thesis by (auto intro: exI [of _ new])
    next
      case False
      with e md h show ?thesis by (auto intro: exI [of _ "[]"])
    qed
  qed
  with i' show ?thesis by (simp add: walk_inv_def)
qed

theorem walk_depth_and_single_visit_witness:
  "discover_start any_host demo_sitemap (demo_self 10) = Inr (demo_start 10)
   \<and> walk_iterate any_host demo_links 1 (demo_start 10) = Inr (demo_walk 10 1)
   \<and> to_crawl (demo_walk 10 1) = [(''https://example.com/team'', 1)]
   \<and> walk_step any_host demo_links (demo_walk 10 1) = Inr (demo_walk 10 2)
   \<and> fetched (demo_walk 10 2) = [''https://example.com'', ''https://example.com/team'']
   \<and> to_crawl (demo_walk 10 2) = [(''https://example.com/team/ada'', 2)]
   \<and> distinct (fetched (demo_walk 10 2))
   \<and> set (fetched (demo_walk 10 2)) = crawled (demo_walk 10 2)"
proof -
  have q: "to_crawl (demo_walk 10 1) = (''https://example.com/team'', 1) # []"
    by code_simp
  have s: "walk_step any_host demo_links (demo_walk 10 1) = Inr (demo_walk 10 2)"
    by code_simp
  have f: "fetched (demo_walk 10 2) = [''https://example.com'', ''https://example.com/team'']"
    by code_simp
  have t: "to_crawl (demo_walk 10 2) = [(''https://example.com/team/ada'', 2)]"
    by code_simp
  show ?thesis
    using walk_depth_and_single_visit [OF demo_start10_eq demo_walk10_1_eq q s]
      demo_start10_eq demo_walk10_1_eq q s f t
    by simp
qed


section \<open>The content fetcher: the claim\<close>

text \<open>
  Claim C3: when every attempt of a fetch ends in a timeout or another request error,
  \<open>extract_clean_content\<close> makes exactly \<open>max_retries\<close> requests, sleeps
  \<open>2 ^ a\<close> seconds after the attempt numbered \<open>a\<close> (counting from 1) unless it was
  the last one, and then returns a result with \<open>extraction_successful = False\<close>,
  \<open>attempts = max_retries\<close> and an \<open>error\<close> entry that ends with the message of the
  last exception. (With \<open>max_retries \<le> 0\<close> the loop body never runs.)
\<close>

theorem retry_exhaustion:
  assumes "0 < max_retries"
    and "\<forall>k. int k < max_retries \<longrightarrow> transient (fetch k)"
  shows "\<exists>r trace. extract_clean_content max_retries url fetch = (Some r, trace)
           \<and> trace = backoff_trace 0 (nat max_retries)
           \<and> requests trace = [0 ..< nat max_retries]
           \<and> sleeps trace = map (\<lambda>attempt. 2 ^ attempt) [1 ..< nat max_retries]
           \<and> \<not> extraction_successful r \<and> attempts r = max_retries
           \<and> (\<exists>m. error_message r = Some (m @ raised (fetch (nat max_retries - 1))))"
proof -
  have "int 0 < max_retries" using assms(1) by simp
  moreover have "\<forall>k. 0 \<le> k \<and> int k < max_retries \<longrightarrow> transient (fetch k)"
    using assms(2) by simp
  ultimately obtain r where
    "attempt_loop max_retries url fetch 0 [] = (Some r, [] @ backoff_trace 0 (nat max_retries - 0))"
    "\<not> extraction_successful r" "attempts r = max_retries"
    "\<exists>m. error_message r = Some (m @ raised (fetch (nat max_retries - 1)))"
    using attempt_loop_exhausted [of 0 max_retries fetch url "[]"] by blast
  then show ?thesis
    using requests_backoff [of 0 "nat max_retries"] sleeps_backoff [of 0 "nat max_retries"]
    by (simp add: extract_clean_content_def)
qed

theorem retry_exhaustion_witness:
  "extract_clean_content 3 ''https://example.com/team'' demo_fetch
     = (Some \<lparr>metadata_url = ''https://example.com/team'', page = None,
               error_message = Some ''Timeout after 3 attempts: read timed out'',
               extraction_successful = False, attempts = 3\<rparr>,
        [Request 0, Sleep 2, Request 1, Sleep 4, Request 2])"
proof -
  have h: "\<forall>k. int k < 3 \<longrightarrow> transient (demo_fetch k)"
    by (simp add: transient_def demo_fetch_def)
  have e: "extract_clean_content 3 ''https://example.com/team'' demo_fetch
     = (Some \<lparr>metadata_url = ''https://example.com/team'', page = None,
               error_message = Some ''Timeout after 3 attempts: read timed out'',
               extraction_successful = False, attempts = 3\<rparr>,
        [Request 0, Sleep 2, Request 1, Sleep 4, Request 2])"
    by code_simp
  show ?thesis
    using retry_exhaustion [of 3 demo_fetch "''https://example.com/team''", OF _ h] e by simp
qed

section \<open>The pipeline: the claims\<close>

text \<open>
  Claim C7: in every state of every interleaving of producer, consumer and cancel
  requests, the paths the consumer has handed to \<open>extract_value_from_file\<close> are, in
  this order, the first items the producer put on the queue, and the snapshot (with the
  log) is the sequential left-to-right fold of \<open>extract_value_from_file\<close> over them,
  started from the empty structure; when the consumer has read the sentinel, it has
  processed every path put before it and has written that fold to the output file.
  And the consumer does process them: once the producer has put the paths and the
  sentinel, a consumer that sees no cancellation and is given a test and a \<open>get\<close> for
  each queued item, however these steps are interleaved with the producer's, ends
  having processed exactly the enqueued paths in their order, with the fold over the
  whole sequence as its snapshot and in the output file; or, when the extraction raises
  for one of them, it ends with that exception after a prefix of the paths.
\<close>

theorem consumer_fifo_fold:
  assumes "s = run chk client job schedule (start cancellation)"
    and "t = run chk client job later s"
  shows "prefix (map Some (processed s)) (put_items s)
       \<and> (case c_phase s of
             C_raised e \<Rightarrow>
               fold_files client (processed s) (get_empty_structure, []) = Inl e
           | _ \<Rightarrow>
               fold_files client (processed s) (get_empty_structure, [])
                 = Inr (accumulated_data s, openai_log s))
       \<and> (c_phase s = C_finished \<longrightarrow>
             put_items s = map Some (processed s) @ [None] \<and> file_queue s = []
             \<and> output_json s = Some (accumulated_data s))
       \<and> (put_items s = map Some paths @ [None]
            \<and> \<not> cancelled (consumer_job_id job) (job_cancellation s)
            \<and> moves_only later \<and> consumer_need s \<le> count_list later Consumer
          \<longrightarrow> (case fold_files client paths (get_empty_structure, []) of
                 Inr (data, log) \<Rightarrow>
                   c_phase t = C_finished \<and> processed t = paths \<and> file_queue t = []
                   \<and> accumulated_data t = data \<and> openai_log t = log
                   \<and> output_json t = Some data
               | Inl e \<Rightarrow> c_phase t = C_raised e \<and> prefix (processed t) paths))"
proof -
  have c: "consumer_inv client s" and p: "producer_inv s"
    using reachable_inv [of client chk job schedule cancellation] by (simp_all add: assms)
  have 1: "prefix (map Some (processed s)) (put_items s)"
    using c unfolding consumer_inv_def by (cases "c_phase s") (auto simp: prefix_def)
  have 2: "(case c_phase s of
             C_raised e \<Rightarrow>
               fold_files client (processed s) (get_empty_structure, []) = Inl e
           | _ \<Rightarrow>
               fold_files client (processed s) (get_empty_structure, [])
                 = Inr (accumulated_data s, openai_log s))"
    using c unfolding consumer_inv_def folded_def by (cases "c_phase s") auto
  have 3: "put_items s = map Some (processed s) @ [None] \<and> file_queue s = []
             \<and> output_json s = Some (accumulated_data s)" if f: "c_phase s = C_finished"
  proof -
    from c f have q: "put_items s = map Some (processed s) @ None # file_queue s"
      and o: "output_json s = Some (accumulated_data s)"
      by (simp_all add: consumer_inv_def)
    then have "None \<in> set (put_items s)" by simp
    with p obtain paths where pp: "put_items s = map Some paths @ [None]"
      by (auto simp: producer_inv_def split: if_splits)
    have "map Some (processed s) @ None # file_queue s = map Some paths @ [None]"
      by (rule trans [OF q [symmetric] pp])
    from sentinel_last [OF this] have e: "file_queue s = []" "processed s = paths" by simp_all
    from pp e(2) have "put_items s = map Some (processed s) @ [None]" by simp
    with e(1) o show ?thesis by blast
  qed
  have 4: "(case fold_files client paths (get_empty_structure, []) of
                 Inr (data, log) \<Rightarrow>
                   c_phase t = C_finished \<and> processed t = paths \<and> file_queue t = []
                   \<and> accumulated_data t = data \<and> openai_log t = log
                   \<and> output_json t = Some data
               | Inl e \<Rightarrow> c_phase t = C_raised e \<and> prefix (processed t) paths)"
    if pi: "put_items s = map Some paths @ [None]"
      and nc: "\<not> cancelled (consumer_job_id job) (job_cancellation s)"
      and m: "moves_only later" and n: "consumer_need s \<le> count_list later Consumer"
  proof -
    from pi have "None \<in> set (put_items s)" by simp
    with p have pr: "p_phase s = P_returned" by (auto simp: producer_inv_def split: if_splits)
    have "drain_inv job s" unfolding assms(1) by (rule reachable_drain_inv)
    with nc have "c_phase s \<noteq> C_drain" "c_phase s \<noteq> C_cancelled"
      by (auto simp: drain_inv_def)
    with c pr pi nc have "fed client job paths s" by (simp add: fed_def)
    from fed_run [OF this m n, of chk] have "fed client job paths t" "consumer_need t = 0"
      by (simp_all add: assms(2))
    from fed_ended [OF this] show ?thesis by auto
  qed
  from 1 2 3 4 show ?thesis by blast
qed

theorem consumer_fifo_fold_witness:
  "put_items (demo_run (replicate 6 Producer @ replicate 2 Consumer))
       = [Some ''content/1_homepage.md'', Some ''content/3_about.md'',
          Some ''content/4_jobs.md'', None]
   \<and> processed (demo_run (replicate 6 Producer @ replicate 2 Consumer))
       = [''content/1_homepage.md'']
   \<and> c_phase (run any_host demo_world demo_job
                 (replicate 3 Consumer @ [Producer] @ replicate 3 Consumer)
                 (demo_run (replicate 6 Producer @ replicate 2 Consumer))) = C_finished
   \<and> processed (run any_host demo_world demo_job
                 (replicate 3 Consumer @ [Producer] @ replicate 3 Consumer)
                 (demo_run (replicate 6 Producer @ replicate 2 Consumer)))
       = [''content/1_homepage.md'', ''content/3_about.md'', ''content/4_jobs.md'']
   \<and> output_json (run any_host demo_world demo_job
                 (replicate 3 Consumer @ [Producer] @ replicate 3 Consumer)
                 (demo_run (replicate 6 Producer @ replicate 2 Consumer)))
       = Some (JObj [(''company_name'', JStr ''Example''),
                     (''description'', JStr ''# content/4_jobs.md'')])"
proof -
  let ?sched = "replicate 6 Producer @ replicate 2 Consumer"
  let ?later = "replicate 3 Consumer @ [Producer] @ replicate 3 Consumer"
  let ?paths = "[''content/1_homepage.md'', ''content/3_about.md'', ''content/4_jobs.md'']"
  let ?s = "demo_run ?sched"
  have r: "?s = run any_host demo_world demo_job ?sched (start [(''job1'', False)])"
    by (simp add: demo_run_def)
  have i: "put_items ?s = map Some ?paths @ [None]" by code_simp
  have k: "\<not> cancelled (consumer_job_id demo_job) (job_cancellation ?s)" by code_simp
  have m: "moves_only ?later" by code_simp
  have n: "consumer_need ?s \<le> count_list ?later Consumer" by code_simp
  have p: "processed ?s = [''content/1_homepage.md'']" by code_simp
  have f: "fold_files demo_world ?paths (get_empty_structure, [])
             = Inr (JObj [(''company_name'', JStr ''Example''),
                          (''description'', JStr ''# content/4_jobs.md'')],
                    openai_log (run any_host demo_world demo_job ?later ?s))"
    by code_simp
  from consumer_fifo_fold [OF r refl, of ?paths ?later] i k m n p f
  show ?thesis by simp
qed




text \<open>
  Claim C9: when the chat completion raises for an artifact, \<open>extract_value_from_file\<close>
  returns \<open>current_data\<close> unchanged (and logs the error) instead of raising, so the
  consumer's snapshot is the same before and after that unit and the consumer goes on
  to the next pass of its loop.
\<close>

theorem ai_failure_is_no_change:
  assumes "read_file_content client filepath = Some file_content"
    and "chat_completion client (accumulated_data s) file_content = Chat_raises msg"
    and "c_phase s = C_get"
    and "file_queue s = Some filepath # rest"
  shows "extract_value_from_file client filepath (accumulated_data s) (openai_log s)
           = Inr (accumulated_data s,
                  openai_log s @ [\<lparr>file_processed = basename filepath,
                                    response = Inl (APIError msg), tokens_used = None\<rparr>])
       \<and> (\<exists>s'. consumer_step client job s = Some s'
              \<and> accumulated_data s' = accumulated_data s \<and> c_phase s' = C_check
              \<and> file_queue s' = rest \<and> file_count s' = file_count s + 1)"
proof -
  have e: "extract_value_from_file client filepath (accumulated_data s) (openai_log s)
           = Inr (accumulated_data s,
                  openai_log s @ [\<lparr>file_processed = basename filepath,
                                    response = Inl (APIError msg), tokens_used = None\<rparr>])"
    using assms(1,2) by (simp add: extract_value_from_file_def Let_def)
  with assms(3,4) show ?thesis by (simp add: consumer_step_def)
qed

theorem ai_failure_is_no_change_witness:
  "c_phase (demo_run [Producer, Producer, Consumer, Consumer, Producer, Producer, Consumer])
     = C_get
   \<and> file_queue (demo_run [Producer, Producer, Consumer, Consumer, Producer, Producer, Consumer])
       = [Some ''content/3_about.md'']
   \<and> chat_completion demo_world
        (accumulated_data
          (demo_run [Producer, Producer, Consumer, Consumer, Producer, Producer, Consumer]))
        ''# content/3_about.md'' = Chat_raises ''rate limit''
   \<and> extract_value_from_file demo_world ''content/3_about.md''
        (accumulated_data
          (demo_run [Producer, Producer, Consumer, Consumer, Producer, Producer, Consumer]))
        (openai_log
          (demo_run [Producer, Producer, Consumer, Consumer, Producer, Producer, Consumer]))
       = Inr (JObj [(''company_name'', JStr ''Example''),
                    (''description'', JStr ''# content/1_homepage.md'')],
              [\<lparr>file_processed = ''1_homepage.md'', response = Inr ''# content/1_homepage.md'',
                 tokens_used = Some (10, 5, 15)\<rparr>,
               \<lparr>file_processed = ''3_about.md'', response = Inl (APIError ''rate limit''),
                 tokens_used = None\<rparr>])"
proof -
  let ?s = "demo_run [Producer, Producer, Consumer, Consumer, Producer, Producer, Consumer]"
  have c: "c_phase ?s = C_get" by code_simp
  have q: "file_queue ?s = Some ''content/3_about.md'' # []" by code_simp
  have f: "read_file_content demo_world ''content/3_about.md'' = Some ''# content/3_about.md''"
    by (simp add: demo_world_def)
  have k: "chat_completion demo_world (accumulated_data ?s) ''# content/3_about.md''
             = Chat_raises ''rate limit''"
    by (simp add: demo_world_def)
  have a: "accumulated_data ?s = JObj [(''company_name'', JStr ''Example''),
                    (''description'', JStr ''# content/1_homepage.md'')]"
    by code_simp
  have g: "openai_log ?s = [\<lparr>file_processed = ''1_homepage.md'',
                              response = Inr ''# content/1_homepage.md'',
                              tokens_used = Some (10, 5, 15)\<rparr>]"
    by code_simp
  have b: "basename ''content/3_about.md'' = ''3_about.md''" by code_simp
  from ai_failure_is_no_change [OF f k c q, of demo_job] c q k a g b
  show ?thesis by simp
qed

text \<open>
  Claim C10: when the consumer finds the flag set before it has processed any unit, it
  empties the queue and returns without writing the output file; neither the output
  file nor the progress file exists afterwards.
\<close>

theorem cancellation_before_first_unit:
  assumes "s = run chk client job schedule (start cancellation)"
    and "c_phase s = C_check"
    and "cancelled (consumer_job_id job) (job_cancellation s)"
    and "file_count s = 0"
    and "s' = run chk client job (replicate (length (file_queue s) + 2) Consumer) s"
    and "t = run chk client job later s"
  shows "c_phase s' = C_cancelled \<and> file_queue s' = [] \<and> processed s' = []
       \<and> output_json s' = None \<and> progress_file s' = None
       \<and> processed t = [] \<and> output_json t = None \<and> progress_file t = None"
proof -
  have c: "consumer_inv client s"
    using reachable_inv [of client chk job schedule cancellation] by (simp add: assms(1))
  from c assms(2,4) have i: "processed s = []" "output_json s = None" "progress_file s = None"
    by (simp_all add: consumer_inv_def)
  have s': "s' = s\<lparr>file_queue := [], c_phase := C_cancelled,
               output_json := (if 0 < file_count s then Some (accumulated_data s)
                               else output_json s)\<rparr>"
    unfolding assms(5) by (rule cancel_alone [OF assms(2,3)])
  have d: "draining job s t"
    unfolding assms(6) by (rule run_draining [OF draining_start [OF assms(2,3)]])
  from s' i d assms(4) show ?thesis by (auto simp: draining_def)
qed

theorem cancellation_before_first_unit_witness:
  "c_phase (demo_run [Producer, Producer, Cancel ''job1'']) = C_check
   \<and> file_count (demo_run [Producer, Producer, Cancel ''job1'']) = 0
   \<and> file_queue (demo_run [Producer, Producer, Cancel ''job1''])
       = [Some ''content/1_homepage.md'']
   \<and> file_queue (run any_host demo_world demo_job (replicate 3 Consumer)
                  (demo_run [Producer, Producer, Cancel ''job1''])) = []
   \<and> c_phase (run any_host demo_world demo_job (replicate 3 Consumer)
                  (demo_run [Producer, Producer, Cancel ''job1''])) = C_cancelled
   \<and> output_json (run any_host demo_world demo_job (replicate 3 Consumer)
                  (demo_run [Producer, Producer, Cancel ''job1''])) = None"
proof -
  let ?s = "demo_run [Producer, Producer, Cancel ''job1'']"
  have r: "?s = run any_host demo_world demo_job [Producer, Producer, Cancel ''job1'']
                  (start [(''job1'', False)])"
    by (simp add: demo_run_def)
  have c: "c_phase ?s = C_check" by code_simp
  have k: "cancelled (consumer_job_id demo_job) (job_cancellation ?s)" by code_simp
  have n: "file_count ?s = 0" by code_simp
  have q: "file_queue ?s = [Some ''content/1_homepage.md'']" by code_simp
  have "length (file_queue ?s) + 2 = 3" by (simp add: q)
  then have l: "replicate (length (file_queue ?s) + 2) Consumer = replicate 3 Consumer"
    by (simp only:)
  from cancellation_before_first_unit [OF r c k n refl refl, of "[]"] c n q l
  show ?thesis by simp
qed

section \<open>URLs: the claims\<close>

text \<open>
  Claim C4, as stated: \<open>calculate_priority\<close> equals the formula of the specification
  for every URL. The table of the specification starts at one segment, while the code
  subtracts 20 for every number of segments other than one to four, also for a path such
  as \<open>//\<close> that has none; and the code subtracts 5 when the URL string contains a
  question mark, also where the question mark stands in the fragment and the URL has
  no query string.
\<close>

theorem priority_outside_spec_table:
  "urlparse any_host ''https://example.com//''
     = Inr \<lparr>p_scheme = ''https'', p_netloc = ''example.com'', p_path = ''//'',
            p_params = [], p_query = [], p_fragment = []\<rparr>
   \<and> calculate_priority any_host ''https://example.com//'' ''body'' 0 = Inr 30
   \<and> spec_priority \<lparr>p_scheme = ''https'', p_netloc = ''example.com'', p_path = ''//'',
                      p_params = [], p_query = [], p_fragment = []\<rparr> ''body'' 0 = None
   \<and> urlparse any_host ''https://example.com/about#what?''
       = Inr \<lparr>p_scheme = ''https'', p_netloc = ''example.com'', p_path = ''/about'',
              p_params = [], p_query = [], p_fragment = ''what?''\<rparr>
   \<and> calculate_priority any_host ''https://example.com/about#what?'' ''body'' 0 = Inr 65
   \<and> spec_priority \<lparr>p_scheme = ''https'', p_netloc = ''example.com'', p_path = ''/about'',
                      p_params = [], p_query = [], p_fragment = ''what?''\<rparr> ''body'' 0
       = Some 70"
  by code_simp

text \<open>
  Claim C4, amended: for every URL that \<open>urlparse\<close> accepts,
  \<open>calculate_priority(url, context, depth)\<close> is 100 when the path is \<open>/\<close> or empty,
  and otherwise the clamp to \<open>[0, 100]\<close> of 50 + context bonus (nav +30, footer +20,
  homepage +25, anything else +0) + segment bonus (1 segment +20, 2 segments +10, 3
  segments +0, 4 segments -10, any other number of segments, none included, -20)
  - 5 * depth - (5 if the URL string contains a question mark, else 0); the result lies
  in \<open>[0, 100]\<close>. Where the formula of the specification has a value and the question
  mark stands for a query string, this is that value.
\<close>

theorem priority_is_amended_formula:
  assumes "urlparse chk url = Inr parsed"
  shows "calculate_priority chk url context depth
           = Inr (priority_formula (p_path parsed) url context depth)
       \<and> 0 \<le> priority_formula (p_path parsed) url context depth
       \<and> priority_formula (p_path parsed) url context depth \<le> 100
       \<and> (p_path parsed = ''/'' \<or> p_path parsed = []
            \<longrightarrow> calculate_priority chk url context depth = Inr 100)
       \<and> (\<forall>v. spec_priority parsed context depth = Some v
               \<and> (p_query parsed \<noteq> [] \<longleftrightarrow> CHR ''?'' \<in> set url)
            \<longrightarrow> calculate_priority chk url context depth = Inr v)"
proof -
  have s: "filter (\<lambda>p. p \<noteq> []) (split (CHR ''/'') (strip ''/'' (p_path parsed)))
             = path_segments (p_path parsed)"
    unfolding path_segments_def by (rule path_parts_strip)
  have s1: "(if context = ''nav'' then (50::int) + 30
             else if context = ''footer'' then 50 + 20
             else if context = ''homepage'' then 50 + 25
             else 50 + 0) = 50 + context_bonus context"
    by (simp add: context_bonus_def)
  have s2: "(if n = 1 then x + 20
             else if n = 2 then x + 10
             else if n = 3 then x + 0
             else if n = 4 then x - 10
             else x - 20) = x + segment_bonus n" for x :: int and n :: nat
    by (simp add: segment_bonus_def)
  have s3: "(if b then x - 5 else x) = x - (if b then 5 else 0)" for x :: int and b
    by simp
  have "calculate_priority chk url context depth
          = (if p_path parsed \<in> set [''/'', ''''] then Inr 100
             else Inr (max 0 (min 100
                    (50 + context_bonus context
                       + segment_bonus (length (path_segments (p_path parsed)))
                       - depth * 5 - (if CHR ''?'' \<in> set url then 5 else 0)))))"
    unfolding calculate_priority_def assms
    by (simp only: sum.case Let_def s s1 s2 s3)
  then have c: "calculate_priority chk url context depth
           = Inr (priority_formula (p_path parsed) url context depth)"
    by (simp add: priority_formula_def mult.commute [of depth 5])
  have r: "p_path parsed = ''/'' \<or> p_path parsed = []
            \<Longrightarrow> priority_formula (p_path parsed) url context depth = 100"
    by (auto simp: priority_formula_def)
  have v: "priority_formula (p_path parsed) url context depth = v"
    if h: "spec_priority parsed context depth = Some v"
      and q: "p_query parsed \<noteq> [] \<longleftrightarrow> CHR ''?'' \<in> set url" for v
  proof (cases "p_path parsed = ''/'' \<or> p_path parsed = []")
    case True
    with h show ?thesis by (auto simp: spec_priority_def priority_formula_def)
  next
    case False
    with h obtain bonus where
      b: "spec_segment_bonus (length (path_segments (p_path parsed))) = Some bonus"
      and e: "v = max 0 (min 100 (50 + context_bonus context + bonus - 5 * depth
                                       - (if p_query parsed \<noteq> [] then 5 else 0)))"
      by (auto simp: spec_priority_def split: option.splits)
    from b have "segment_bonus (length (path_segments (p_path parsed))) = bonus"
      by (simp add: spec_segment_bonus_def segment_bonus_def split: if_splits)
    with e q False show ?thesis by (simp add: priority_formula_def)
  qed
  from c r v priority_formula_range [of "p_path parsed" url "context" depth]
  show ?thesis by auto
qed

theorem priority_is_amended_formula_witness:
  "urlparse any_host ''https://example.com/team/ada?tab=bio''
     = Inr \<lparr>p_scheme = ''https'', p_netloc = ''example.com'', p_path = ''/team/ada'',
            p_params = [], p_query = ''tab=bio'', p_fragment = []\<rparr>
   \<and> calculate_priority any_host ''https://example.com/team/ada?tab=bio'' ''footer'' 2 = Inr 65
   \<and> spec_priority \<lparr>p_scheme = ''https'', p_netloc = ''example.com'', p_path = ''/team/ada'',
                      p_params = [], p_query = ''tab=bio'', p_fragment = []\<rparr> ''footer'' 2
       = Some 65"
proof -
  have p: "urlparse any_host ''https://example.com/team/ada?tab=bio''
     = Inr \<lparr>p_scheme = ''https'', p_netloc = ''example.com'', p_path = ''/team/ada'',
            p_params = [], p_query = ''tab=bio'', p_fragment = []\<rparr>"
    by code_simp
  have f: "priority_formula ''/team/ada'' ''https://example.com/team/ada?tab=bio'' ''footer'' 2 = 65"
    by code_simp
  have s: "spec_priority \<lparr>p_scheme = ''https'', p_netloc = ''example.com'', p_path = ''/team/ada'',
                      p_params = [], p_query = ''tab=bio'', p_fragment = []\<rparr> ''footer'' 2
       = Some 65"
    by code_simp
  from priority_is_amended_formula [OF p, of "''footer''" 2] p f s show ?thesis by simp
qed

section \<open>URL normalisation: the claim\<close>

text \<open>
  Claim C5: \<open>clean_url\<close> is idempotent on every absolute URL,
  \<open>clean_url(clean_url(u)) = clean_url(u)\<close>. The code breaks this for a URL with path
  parameters. Its docstring says that it removes tracking parameters, but it rebuilds the
  URL from scheme, authority and path and so drops \<open>parsed.params\<close> as well, and
  \<open>urlparse\<close> looks for the parameters (what follows a semicolon) in the last segment
  of the path only. In \<open>/a;b/\<close> the last segment is empty and the path is kept whole;
  \<open>clean_url\<close> removes the trailing slash and returns a URL whose last segment is
  \<open>a;b\<close>, from which a second call drops \<open>;b\<close>.
\<close>

theorem clean_url_not_idempotent:
  "urlparse any_host ''https://example.com/a;b/''
     = Inr \<lparr>p_scheme = ''https'', p_netloc = ''example.com'', p_path = ''/a;b/'',
            p_params = [], p_query = [], p_fragment = []\<rparr>
   \<and> clean_url any_host (demo_self 5) ''https://example.com/a;b/''
       = Inr ''https://example.com/a;b''
   \<and> urlparse any_host ''https://example.com/a;b''
       = Inr \<lparr>p_scheme = ''https'', p_netloc = ''example.com'', p_path = ''/a'',
              p_params = ''b'', p_query = [], p_fragment = []\<rparr>
   \<and> clean_url any_host (demo_self 5) ''https://example.com/a;b''
       = Inr ''https://example.com/a''
   \<and> ''https://example.com/a'' \<noteq> ''https://example.com/a;b''"
  by code_simp

text \<open>
  The path parameters are what breaks it. For an absolute URL written in ASCII that
  \<open>urlparse\<close> accepts and whose path has no semicolon, \<open>clean_url\<close> returns a URL
  that a second call returns unchanged.
\<close>

lemma clean_url_idempotent_on_plain_urls:
  assumes parse: "urlparse chk u = Inr p"
    and scheme: "p_scheme p \<noteq> []"
    and netloc: "p_netloc p \<noteq> []"
    and semi: "CHR '';'' \<notin> set (p_path p)"
    and ascii: "ascii u"
  shows "\<exists>v. clean_url chk self u = Inr v \<and> clean_url chk self v = Inr v"
proof -
  define S where "S = p_scheme p"
  define N where "N = p_netloc p"
  define P where "P = p_path p"
  define Q where "Q = p_query p"
  define d where "d = filter (\<lambda>(k, v). k \<notin> set (tracking_params self)) (parse_qs Q)"
  define B where "B = S @ ''://'' @ N"
  note parts = urlparse_parts [OF parse]
  have S: "scheme_ok S" using parts(1) scheme by (simp add: S_def)
  have N: "authority_ok chk N" using parts(2) netloc by (simp add: N_def)
  have P: "path_ok P" using parts(3) netloc by (simp add: P_def)
  have sP: "CHR '';'' \<notin> set P" using semi by (simp add: P_def)
  have aQ: "ascii Q" using ascii parts(4) unfolding Q_def by (rule ascii_subset)
  have dok: "dict_ok d" unfolding d_def by (rule filter_dict_ok) (rule parse_qs_ok)
  have dtext: "dict_text_ok d"
    unfolding d_def using aQ by (intro filter_dict_text_ok parse_qs_text_ok)
  have Nne: "N \<noteq> []" and Nlast: "last N \<noteq> CHR ''/''"
    using N by (auto simp: authority_ok_def list_all_iff dest: last_in_set)
  have Bne: "B \<noteq> []" and Blast: "last B \<notin> set ''/''"
    using Nne Nlast by (simp_all add: B_def)
  have first: "clean_url chk self u =
     Inr (let c = B @ P @ (if Q \<noteq> [] \<and> d \<noteq> [] then CHR ''?'' # urlencode d else [])
          in if endswith c ''/'' \<and> 1 < length P then rstrip ''/'' c else c)"
    unfolding clean_url_of_parse [OF parse]
    by (simp add: Let_def S_def N_def P_def Q_def d_def B_def)
  show ?thesis
  proof (cases "Q \<noteq> [] \<and> d \<noteq> []")
    case True
    define E where "E = urlencode d"
    have E: "E \<noteq> []" "set E \<subseteq> set query_chars" "last E \<noteq> CHR ''/''"
      unfolding E_def using urlencode_props [OF dok] True by simp_all
    have v1: "clean_url chk self u = Inr (B @ P @ CHR ''?'' # E)"
      unfolding first using True E by (simp add: endswith_slash E_def [symmetric])
    have rp: "urlparse chk (B @ P @ CHR ''?'' # E)
                = Inr \<lparr>p_scheme = S, p_netloc = N, p_path = P, p_params = [],
                        p_query = E, p_fragment = []\<rparr>"
      using urlparse_rebuilt [OF S N P E(2) sP] E(1) by (simp add: B_def)
    have pq: "parse_qs E = d" unfolding E_def using dok dtext by (rule parse_qs_urlencode)
    have fd: "filter (\<lambda>(k, v). k \<notin> set (tracking_params self)) d = d"
      by (simp add: d_def)
    have "clean_url chk self (B @ P @ CHR ''?'' # E) = Inr (B @ P @ CHR ''?'' # E)"
      unfolding clean_url_of_parse [OF rp]
      using True E by (simp add: pq fd endswith_slash E_def [symmetric] B_def)
    with v1 show ?thesis by blast
  next
    case False
    define P' where
      "P' = (if endswith (B @ P) ''/'' \<and> 1 < length P then rstrip ''/'' P else P)"
    have v1: "clean_url chk self u = Inr (B @ P')"
      unfolding first using False rstrip_keep [OF Bne Blast, of P]
      by (auto simp: P'_def)
    have pre: "prefix P' P" by (simp add: P'_def rstrip_prefix)
    have P': "path_ok P'" using P pre by (rule path_ok_prefix)
    have sP': "CHR '';'' \<notin> set P'" using sP set_mono_prefix [OF pre] by blast
    have stop: "\<not> (endswith (B @ P') ''/'' \<and> 1 < length P')"
    proof (cases "endswith (B @ P) ''/'' \<and> 1 < length P")
      case True
      then have "P' = rstrip ''/'' P" by (simp add: P'_def)
      then have "P' = [] \<or> last P' \<noteq> CHR ''/''"
        using rstrip_last [of "''/''" P] by simp
      then show ?thesis using Bne Blast by (cases "P' = []") (auto simp: endswith_slash)
    next
      case False
      then have "P' = P" by (auto simp: P'_def)
      with False show ?thesis by simp
    qed
    have rp: "urlparse chk (B @ P')
                = Inr \<lparr>p_scheme = S, p_netloc = N, p_path = P', p_params = [],
                        p_query = [], p_fragment = []\<rparr>"
      using urlparse_rebuilt [OF S N P' _ sP', of "[]"] by (simp add: B_def)
    have "clean_url chk self (B @ P') = Inr (B @ P')"
      unfolding clean_url_of_parse [OF rp]
      using stop by (auto simp: B_def Let_def)
    with v1 show ?thesis by blast
  qed
qed

lemma clean_url_idempotent_on_plain_urls_example:
  "clean_url any_host (demo_self 5) ''HTTPS://example.com/shop/?utm_source=mail&q=a+b&q=c%2Fd#top''
     = Inr ''https://example.com/shop/?q=a+b&q=c%2Fd''
   \<and> clean_url any_host (demo_self 5) ''https://example.com/shop/?q=a+b&q=c%2Fd''
     = Inr ''https://example.com/shop/?q=a+b&q=c%2Fd''"
proof -
  have p: "urlparse any_host ''HTTPS://example.com/shop/?utm_source=mail&q=a+b&q=c%2Fd#top''
     = Inr \<lparr>p_scheme = ''https'', p_netloc = ''example.com'', p_path = ''/shop/'',
            p_params = [], p_query = ''utm_source=mail&q=a+b&q=c%2Fd'', p_fragment = ''top''\<rparr>"
    by code_simp
  have a: "ascii ''HTTPS://example.com/shop/?utm_source=mail&q=a+b&q=c%2Fd#top''"
    by code_simp
  have c: "clean_url any_host (demo_self 5)
             ''HTTPS://example.com/shop/?utm_source=mail&q=a+b&q=c%2Fd#top''
     = Inr ''https://example.com/shop/?q=a+b&q=c%2Fd''"
    by code_simp
  from clean_url_idempotent_on_plain_urls [OF p _ _ _ a, of "demo_self 5"] c
  show ?thesis by simp
qed

end
